theory Spec2Isabelle
  imports Complex_Main "HOL-Library.Word" "HOL-Library.Log_Nat"
begin

unbundle bit_operations_syntax

section \<open>Bytes, SHA-256 and hexadecimal encoding\<close>

text \<open>
  A Go \<^verbatim>\<open>[]byte\<close> is modelled by its contents, a list of 8-bit words. The slices this
  program produces are digests cut from a fresh 32-byte array (\<^verbatim>\<open>hash[:]\<close>), whose
  capacity equals their length, so every \<^verbatim>\<open>append\<close> to them copies and the contents
  are all that matters.

  \<^verbatim>\<open>sha256.Sum256\<close> belongs to Go's standard library. It is written out here after
  FIPS 180-4: padding, the message schedule kept as a window of sixteen words, and
  sixty-four rounds per 64-byte block.
\<close>

type_synonym byte = "8 word"
type_synonym u32 = "32 word"

definition rotr :: "nat \<Rightarrow> u32 \<Rightarrow> u32" where
  "rotr n x = drop_bit n x OR push_bit (32 - n) x"

definition Ch :: "u32 \<Rightarrow> u32 \<Rightarrow> u32 \<Rightarrow> u32" where
  "Ch x y z = (x AND y) XOR (NOT x AND z)"

definition Maj :: "u32 \<Rightarrow> u32 \<Rightarrow> u32 \<Rightarrow> u32" where
  "Maj x y z = (x AND y) XOR (x AND z) XOR (y AND z)"

definition bsig0 :: "u32 \<Rightarrow> u32" where
  "bsig0 x = rotr 2 x XOR rotr 13 x XOR rotr 22 x"

definition bsig1 :: "u32 \<Rightarrow> u32" where
  "bsig1 x = rotr 6 x XOR rotr 11 x XOR rotr 25 x"

definition ssig0 :: "u32 \<Rightarrow> u32" where
  "ssig0 x = rotr 7 x XOR rotr 18 x XOR drop_bit 3 x"

definition ssig1 :: "u32 \<Rightarrow> u32" where
  "ssig1 x = rotr 17 x XOR rotr 19 x XOR drop_bit 10 x"

text \<open>
  The round constants, the first 32 bits of the fractional parts of the cube roots of the
  first 64 primes, and the initial state, the same of the square roots of the first 8.
\<close>

definition sha256_K :: "u32 list" where
  "sha256_K =
    [1116352408, 1899447441, 3049323471, 3921009573,
     961987163, 1508970993, 2453635748, 2870763221,
     3624381080, 310598401, 607225278, 1426881987,
     1925078388, 2162078206, 2614888103, 3248222580,
     3835390401, 4022224774, 264347078, 604807628,
     770255983, 1249150122, 1555081692, 1996064986,
     2554220882, 2821834349, 2952996808, 3210313671,
     3336571891, 3584528711, 113926993, 338241895,
     666307205, 773529912, 1294757372, 1396182291,
     1695183700, 1986661051, 2177026350, 2456956037,
     2730485921, 2820302411, 3259730800, 3345764771,
     3516065817, 3600352804, 4094571909, 275423344,
     430227734, 506948616, 659060556, 883997877,
     958139571, 1322822218, 1537002063, 1747873779,
     1955562222, 2024104815, 2227730452, 2361852424,
     2428436474, 2756734187, 3204031479, 3329325298]"

definition sha256_init :: "u32 list" where
  "sha256_init =
    [1779033703, 3144134277, 1013904242, 2773480762,
     1359893119, 2600822924, 528734635, 1541459225]"

fun be32 :: "byte list \<Rightarrow> u32 list" where
  "be32 (b0 # b1 # b2 # b3 # bs) =
     (push_bit 24 (ucast b0) OR push_bit 16 (ucast b1) OR push_bit 8 (ucast b2) OR ucast b3)
       # be32 bs"
| "be32 _ = []"

fun rounds :: "u32 list \<Rightarrow> u32 list \<Rightarrow> u32 list \<Rightarrow> u32 list" where
  "rounds (k # ks)
          (w0 # w1 # w2 # w3 # w4 # w5 # w6 # w7 # w8 # w9 # w10 # w11 # w12 # w13 # w14 # w15 # ws)
          [a, b, c, d, e, f, g, h] =
     (let t1 = h + bsig1 e + Ch e f g + k + w0;
          t2 = bsig0 a + Maj a b c
      in rounds ks
           [w1, w2, w3, w4, w5, w6, w7, w8, w9, w10, w11, w12, w13, w14, w15,
            ssig1 w14 + w9 + ssig0 w1 + w0]
           [t1 + t2, a, b, c, d + t1, e, f, g])"
| "rounds _ _ s = s"

definition block :: "u32 list \<Rightarrow> byte list \<Rightarrow> u32 list" where
  "block s p = map2 (+) s (rounds sha256_K (be32 p) s)"

fun blocks :: "nat \<Rightarrow> u32 list \<Rightarrow> byte list \<Rightarrow> u32 list" where
  "blocks 0 s p = s"
| "blocks (Suc n) s p = blocks n (block s (take 64 p)) (drop 64 p)"

definition be_bytes64 :: "64 word \<Rightarrow> byte list" where
  "be_bytes64 n = map (\<lambda>i. ucast (drop_bit (8 * i) n)) [7, 6, 5, 4, 3, 2, 1, 0]"

definition be_bytes32 :: "u32 \<Rightarrow> byte list" where
  "be_bytes32 n = map (\<lambda>i. ucast (drop_bit (8 * i) n)) [3, 2, 1, 0]"

definition sha256_pad :: "byte list \<Rightarrow> byte list" where
  "sha256_pad m = m @ [0x80] @ replicate ((119 - length m mod 64) mod 64) 0
                    @ be_bytes64 (of_nat (8 * length m))"

definition Sum256 :: "byte list \<Rightarrow> byte list" where
  "Sum256 m = (let p = sha256_pad m
               in concat (map be_bytes32 (blocks (length p div 64) sha256_init p)))"

text \<open>\<^verbatim>\<open>hex.EncodeToString\<close>: two lower-case hexadecimal digits per byte, high nibble first.\<close>

definition hextable :: string where
  "hextable = ''0123456789abcdef''"

fun EncodeToString :: "byte list \<Rightarrow> string" where
  "EncodeToString [] = []"
| "EncodeToString (v # src) =
     hextable ! unat (drop_bit 4 v) # hextable ! unat (v AND 0x0f) # EncodeToString src"

section \<open>Transactions\<close>

text \<open>
  \<^verbatim>\<open>Amount\<close> is a \<^verbatim>\<open>float64\<close>, kept as its 64 bits. \<^verbatim>\<open>String\<close> renders it with the
  verb \<^verbatim>\<open>%.2f\<close> of \<^verbatim>\<open>fmt.Sprintf\<close>; that rendering is library code on floating-point
  numbers and is taken as the parameter \<open>f2\<close> of every function that reaches it, so
  that each result below holds for whatever the library prints.

  The elements of a \<^verbatim>\<open>[]*Transaction\<close> and the receiver of \<^verbatim>\<open>GenerateProof\<close> are the
  values pointed to: the code never compares them with \<^verbatim>\<open>nil\<close>, and a \<^verbatim>\<open>nil\<close> among
  them would panic at its first use.
\<close>

record Transaction =
  ID :: string
  From :: string
  To :: string
  Amount :: "64 word"

definition bytes_of :: "string \<Rightarrow> byte list" where
  "bytes_of s = map of_char s"

definition Transaction_String :: "(64 word \<Rightarrow> string) \<Rightarrow> Transaction \<Rightarrow> string" where
  "Transaction_String f2 t = ID t @ '':'' @ From t @ ''->'' @ To t @ '':'' @ f2 (Amount t)"

definition Transaction_Hash :: "(64 word \<Rightarrow> string) \<Rightarrow> Transaction \<Rightarrow> byte list" where
  "Transaction_Hash f2 t = (let data = bytes_of (Transaction_String f2 t) in Sum256 data)"

section \<open>Nodes, trees and proofs\<close>

text \<open>
  A \<^verbatim>\<open>*MerkleNode\<close> that the code compares with \<^verbatim>\<open>nil\<close> is an option; nodes are never
  written after \<^verbatim>\<open>NewMerkleNode\<close> returns them, so a pointer shared by two parents (the
  duplicated last node) is the same value in both places.
\<close>

datatype MerkleNode =
  MerkleNode (Left: "MerkleNode option") (Right: "MerkleNode option") (Hash: "byte list")

record MerkleTree =
  Root :: MerkleNode
  Transactions :: "Transaction list"
  Leaves :: "MerkleNode list"

record MerkleProof =
  Hashes :: "byte list list"
  Positions :: "bool list"

text \<open>
  What a call can end in besides its result: an \<^verbatim>\<open>error\<close> value made by
  \<^verbatim>\<open>errors.New\<close>, with its message, or a run-time panic.
\<close>

datatype failure =
  Err string
| Panic_index_out_of_range
| Panic_nil_dereference

definition NewMerkleNode :: "MerkleNode option \<Rightarrow> MerkleNode option \<Rightarrow> byte list \<Rightarrow> MerkleNode" where
  "NewMerkleNode left right data =
     (if left = None \<and> right = None then MerkleNode left right data
      else
        let prevHashes = [];
            prevHashes = (case left of None \<Rightarrow> prevHashes | Some l \<Rightarrow> prevHashes @ Hash l);
            prevHashes = (case right of None \<Rightarrow> prevHashes | Some r \<Rightarrow> prevHashes @ Hash r)
        in MerkleNode left right (Sum256 prevHashes))"

text \<open>
  The inner loop of \<^verbatim>\<open>NewMerkleTree\<close>: \<^verbatim>\<open>nodes[i]\<close> and \<^verbatim>\<open>nodes[i+1]\<close> for
  \<open>i = 0, 2, 4, \<dots>\<close>; on a list of odd length the last read of \<^verbatim>\<open>nodes[i+1]\<close> is out of
  range.
\<close>

fun pair_nodes :: "MerkleNode list \<Rightarrow> failure + MerkleNode list" where
  "pair_nodes [] = Inr []"
| "pair_nodes [n] = Inl Panic_index_out_of_range"
| "pair_nodes (l # r # rest) =
     (case pair_nodes rest of
        Inl e \<Rightarrow> Inl e
      | Inr level \<Rightarrow> Inr (NewMerkleNode (Some l) (Some r) [] # level))"

text \<open>The outer loop of \<^verbatim>\<open>NewMerkleTree\<close>: \<^verbatim>\<open>for len(nodes) > 1\<close>.\<close>

function build_loop :: "MerkleNode list \<Rightarrow> failure + MerkleNode list" where
  "build_loop nodes =
     (if length nodes > 1 then
        (case pair_nodes nodes of
           Inl e \<Rightarrow> Inl e
         | Inr level \<Rightarrow>
             build_loop (if length level mod 2 \<noteq> 0 \<and> length level > 1
                         then level @ [last level] else level))
      else Inr nodes)"
  by pat_completeness auto
termination
proof (relation "measure length")
  show "wf (measure length)" by simp
next
  fix nodes :: "MerkleNode list" and level :: "MerkleNode list"
  assume big: "1 < length nodes" and lv: "pair_nodes nodes = Inr level"
  have len: "pair_nodes ns = Inr l \<Longrightarrow> length ns = 2 * length l" for ns l
    by (induction ns arbitrary: l rule: pair_nodes.induct) (auto split: sum.splits)
  from len [OF lv] big
  show "((if length level mod 2 \<noteq> 0 \<and> 1 < length level then level @ [last level] else level),
         nodes) \<in> measure length"
    by auto
qed

definition NewMerkleTree :: "(64 word \<Rightarrow> string) \<Rightarrow> Transaction list \<Rightarrow> failure + MerkleTree" where
  "NewMerkleTree f2 transactions =
     (if length transactions = 0 then Inl (Err ''cannot create Merkle tree with no transactions'')
      else
        let leaves = map (\<lambda>tx. NewMerkleNode None None (Transaction_Hash f2 tx)) transactions;
            nodes = leaves;
            nodes = (if length nodes mod 2 \<noteq> 0 then nodes @ [last nodes] else nodes)
        in case build_loop nodes of
             Inl e \<Rightarrow> Inl e
           | Inr [] \<Rightarrow> Inl Panic_index_out_of_range
           | Inr (node # _) \<Rightarrow>
               Inr \<lparr>Root = node, Transactions = transactions, Leaves = leaves\<rparr>)"

section \<open>Proof generation\<close>

text \<open>
  The inner loop of \<^verbatim>\<open>GenerateProof\<close>. \<open>i\<close> is the loop counter, the list is what is
  left of \<^verbatim>\<open>nodes\<close> from position \<open>i\<close> on; \<^verbatim>\<open>currentIndex\<close>, the proof and
  \<^verbatim>\<open>level\<close> are the variables the loop updates. Indices are Go \<^verbatim>\<open>int\<close>s; they stay
  between 0 and the length of a slice, so no arithmetic on them overflows, and
  \<^verbatim>\<open>i / 2\<close> on a non-negative \<open>i\<close> is \<open>div\<close>.
\<close>

fun proof_pairs ::
  "int \<Rightarrow> MerkleNode list \<Rightarrow> int \<Rightarrow> MerkleProof \<Rightarrow> MerkleNode list
     \<Rightarrow> failure + (int \<times> MerkleProof \<times> MerkleNode list)" where
  "proof_pairs i [] currentIndex mproof level = Inr (currentIndex, mproof, level)"
| "proof_pairs i [n] currentIndex mproof level = Inl Panic_index_out_of_range"
| "proof_pairs i (l # r # rest) currentIndex mproof level =
     (let (mproof', currentIndex') =
        (if i = currentIndex \<or> i + 1 = currentIndex then
           (if i = currentIndex then
              (mproof\<lparr>Hashes := Hashes mproof @ [Hash r], Positions := Positions mproof @ [True]\<rparr>,
               i div 2)
            else
              (mproof\<lparr>Hashes := Hashes mproof @ [Hash l], Positions := Positions mproof @ [False]\<rparr>,
               i div 2))
         else (mproof, currentIndex));
          node = NewMerkleNode (Some l) (Some r) []
      in proof_pairs (i + 2) rest currentIndex' mproof' (level @ [node]))"

text \<open>The outer loop of \<^verbatim>\<open>GenerateProof\<close>.\<close>

function proof_loop :: "MerkleNode list \<Rightarrow> int \<Rightarrow> MerkleProof \<Rightarrow> failure + MerkleProof" where
  "proof_loop nodes currentIndex mproof =
     (if length nodes > 1 then
        (case proof_pairs 0 nodes currentIndex mproof [] of
           Inl e \<Rightarrow> Inl e
         | Inr (currentIndex', mproof', level) \<Rightarrow>
             proof_loop (if length level mod 2 \<noteq> 0 \<and> length level > 1
                         then level @ [last level] else level)
                        currentIndex' mproof')
      else Inr mproof)"
  by pat_completeness auto
termination
proof (relation "measure (\<lambda>(nodes, currentIndex, mproof). length nodes)")
  show "wf (measure (\<lambda>(nodes, currentIndex, mproof). length nodes))" by simp
next
  fix nodes :: "MerkleNode list" and currentIndex :: int and mproof :: MerkleProof
    and x :: "int \<times> MerkleProof \<times> MerkleNode list" and currentIndex' :: int
    and y :: "MerkleProof \<times> MerkleNode list" and mproof' :: MerkleProof
    and level :: "MerkleNode list"
  assume big: "1 < length nodes"
    and res: "proof_pairs 0 nodes currentIndex mproof [] = Inr x"
    and x: "(currentIndex', y) = x" and y: "(mproof', level) = y"
  have len: "proof_pairs i ns c p acc = Inr (c', p', l) \<Longrightarrow> length ns + 2 * length acc = 2 * length l"
    for i ns c p acc c' p' l
    by (induction i ns c p acc rule: proof_pairs.induct) (auto split: if_splits simp: Let_def)
  from res x y have "proof_pairs 0 nodes currentIndex mproof [] = Inr (currentIndex', mproof', level)"
    by simp
  from len [OF this] big
  show "((if length level mod 2 \<noteq> 0 \<and> 1 < length level then level @ [last level] else level,
          currentIndex', mproof'),
         nodes, currentIndex, mproof) \<in> measure (\<lambda>(nodes, currentIndex, mproof). length nodes)"
    by auto
qed

text \<open>
  \<^verbatim>\<open>GenerateProof\<close> has the tree as its pointer receiver, so it is given with the tree
  it leaves behind: the first component of the result is the tree after the call. The
  loops work on \<^verbatim>\<open>nodes\<close>, a copy of \<^verbatim>\<open>mt.Leaves\<close> made with \<^verbatim>\<open>make\<close> and
  \<^verbatim>\<open>copy\<close>, and on a proof allocated in the call.
\<close>

definition GenerateProof :: "MerkleTree \<Rightarrow> int \<Rightarrow> MerkleTree \<times> (failure + MerkleProof)" where
  "GenerateProof mt txIndex =
     (if txIndex < 0 \<or> txIndex \<ge> int (length (Transactions mt)) then
        (mt, Inl (Err ''transaction index out of bounds''))
      else
        let mproof = \<lparr>Hashes = [], Positions = []\<rparr>;
            nodes = Leaves mt;
            currentIndex = txIndex;
            nodes = (if length nodes mod 2 \<noteq> 0 then nodes @ [last nodes] else nodes)
        in (mt, proof_loop nodes currentIndex mproof))"

section \<open>Proof verification\<close>

text \<open>
  The loop of \<^verbatim>\<open>VerifyProof\<close>: \<^verbatim>\<open>for i, siblingHash := range proof.Hashes\<close>, reading
  \<^verbatim>\<open>proof.Positions[i]\<close> at each step, which panics when \<open>i\<close> is not below the length of
  \<^verbatim>\<open>Positions\<close>.
\<close>

fun verify_loop :: "nat \<Rightarrow> byte list list \<Rightarrow> bool list \<Rightarrow> byte list \<Rightarrow> failure + byte list" where
  "verify_loop i [] positions currentHash = Inr currentHash"
| "verify_loop i (siblingHash # hashes) positions currentHash =
     (if i < length positions then
        let combined = (if positions ! i then currentHash @ siblingHash
                        else siblingHash @ currentHash)
        in verify_loop (i + 1) hashes positions (Sum256 combined)
      else Inl Panic_index_out_of_range)"

text \<open>
  The proof is a \<^verbatim>\<open>*MerkleProof\<close> supplied by the caller: \<open>None\<close> is the \<^verbatim>\<open>nil\<close> pointer,
  which \<^verbatim>\<open>proof.Hashes\<close> dereferences. The two \<^verbatim>\<open>append\<close>s are concatenations of the
  contents. On slices with spare capacity \<^verbatim>\<open>append\<close> also writes into the caller's array;
  that changes no length, so it does not change which reads are in range.
\<close>

definition VerifyProof :: "byte list \<Rightarrow> MerkleProof option \<Rightarrow> byte list \<Rightarrow> failure + bool" where
  "VerifyProof txHash proof_ptr rootHash =
     (case proof_ptr of
        None \<Rightarrow> Inl Panic_nil_dereference
      | Some mproof \<Rightarrow>
          (case verify_loop 0 (Hashes mproof) (Positions mproof) txHash of
             Inl e \<Rightarrow> Inl e
           | Inr currentHash \<Rightarrow> Inr (EncodeToString currentHash = EncodeToString rootHash)))"

section \<open>Notions used to state the results\<close>

text \<open>
  \<open>pairs\<close> is the level above a level of even length: what the inner loops build when
  no read is out of range.
\<close>

fun pairs :: "MerkleNode list \<Rightarrow> MerkleNode list" where
  "pairs (l # r # rest) = NewMerkleNode (Some l) (Some r) [] # pairs rest"
| "pairs _ = []"

text \<open>
  The construction in the words of the specification: at a level with an odd number of
  nodes, more than one, the last node is repeated; the nodes are paired; a level of at
  most one node ends the construction.
\<close>

definition spec_pad :: "MerkleNode list \<Rightarrow> MerkleNode list" where
  "spec_pad level =
     (if odd (length level) \<and> length level > 1 then level @ [last level] else level)"

function spec_reduce :: "MerkleNode list \<Rightarrow> MerkleNode list" where
  "spec_reduce level =
     (if length level \<le> 1 then level else spec_reduce (pairs (spec_pad level)))"
  by pat_completeness auto
termination
proof (relation "measure length")
  show "wf (measure length)" by simp
next
  fix level :: "MerkleNode list"
  assume big: "\<not> length level \<le> 1"
  have len: "length (pairs ns) = length ns div 2" for ns
    by (induction ns rule: pairs.induct) simp_all
  from big show "(pairs (spec_pad level), level) \<in> measure length"
    by (auto simp: len spec_pad_def elim!: oddE)
qed

text \<open>
  The successive values of \<^verbatim>\<open>nodes\<close> at the head of the outer loop, from the padded leaf
  level up to the level below the root.
\<close>

function levels :: "MerkleNode list \<Rightarrow> MerkleNode list list" where
  "levels nodes =
     (if length nodes > 1 then nodes # levels (spec_pad (pairs nodes)) else [])"
  by pat_completeness auto
termination
proof (relation "measure length")
  show "wf (measure length)" by simp
next
  fix nodes :: "MerkleNode list"
  assume big: "1 < length nodes"
  have len: "length (pairs ns) = length ns div 2" for ns
    by (induction ns rule: pairs.induct) simp_all
  from big show "(spec_pad (pairs nodes), nodes) \<in> measure length"
    by (auto simp: len spec_pad_def)
qed

text \<open>
  The leaf nodes of a transaction list, and the padding of the leaf level as
  \<^verbatim>\<open>NewMerkleTree\<close> and \<^verbatim>\<open>GenerateProof\<close> do it before their loops: the last node is
  repeated whenever the count is odd.
\<close>

definition leaf_nodes :: "(64 word \<Rightarrow> string) \<Rightarrow> Transaction list \<Rightarrow> MerkleNode list" where
  "leaf_nodes f2 transactions =
     map (\<lambda>tx. MerkleNode None None (Transaction_Hash f2 tx)) transactions"

definition dup_if_odd :: "MerkleNode list \<Rightarrow> MerkleNode list" where
  "dup_if_odd nodes = (if odd (length nodes) then nodes @ [last nodes] else nodes)"

text \<open>The position next to \<open>idx\<close> in its pair: to the right of an even one, to the left of an odd one.\<close>

definition sibling :: "int \<Rightarrow> nat" where
  "sibling idx = (if even idx then nat idx + 1 else nat idx - 1)"

text \<open>The digest that a list of siblings and sides leads to, when no read fails.\<close>

fun climb :: "byte list list \<Rightarrow> bool list \<Rightarrow> byte list \<Rightarrow> byte list" where
  "climb (h # hs) (b # bs) cur = climb hs bs (Sum256 (if b then cur @ h else h @ cur))"
| "climb _ _ cur = cur"

text \<open>
  The hash rule on a whole tree: a node without children carries one of the digests
  \<open>D\<close>, a node with two children the hash of their digests, left then right.
\<close>

fun hash_rule :: "byte list set \<Rightarrow> MerkleNode \<Rightarrow> bool" where
  "hash_rule D (MerkleNode None None h) = (h \<in> D)"
| "hash_rule D (MerkleNode (Some l) (Some r) h) =
     (h = Sum256 (Hash l @ Hash r) \<and> hash_rule D l \<and> hash_rule D r)"
| "hash_rule D (MerkleNode _ _ h) = False"

text \<open>
  A collision of the hash function: two different messages with the same digest.
\<close>

definition collision :: "byte list \<Rightarrow> byte list \<Rightarrow> bool" where
  "collision x y \<longleftrightarrow> x \<noteq> y \<and> Sum256 x = Sum256 y"

text \<open>
  The identity on 32-bit words. It marks, in the equations that evaluate the hash function
  on given bytes, where a numeral is brought back below \<open>2\<^sup>3\<^sup>2\<close>.
\<close>

definition norm32 :: "u32 \<Rightarrow> u32" where
  "norm32 x = x"

text \<open>
  Concrete transactions for the instances below. Their amount is the \<^verbatim>\<open>float64\<close> zero,
  which \<^verbatim>\<open>%.2f\<close> prints as \<^verbatim>\<open>0.00\<close>; \<open>f2_zero\<close> is a rendering that is right on it.
\<close>

definition f2_zero :: "64 word \<Rightarrow> string" where
  "f2_zero a = ''0.00''"

definition tx1 :: Transaction where
  "tx1 = \<lparr>ID = ''tx1'', From = ''Alice'', To = ''Bob'', Amount = 0\<rparr>"

definition tx2 :: Transaction where
  "tx2 = \<lparr>ID = ''tx2'', From = ''Bob'', To = ''Charlie'', Amount = 0\<rparr>"

definition tx3 :: Transaction where
  "tx3 = \<lparr>ID = ''tx3'', From = ''Charlie'', To = ''Dave'', Amount = 0\<rparr>"

definition tx4 :: Transaction where
  "tx4 = \<lparr>ID = ''tx4'', From = ''Dave'', To = ''Eve'', Amount = 0\<rparr>"

section \<open>The hash function and the encoding\<close>

text \<open>
  Equations that evaluate the hash function on given bytes by rewriting: one round at a
  time, with every new word reduced modulo \<open>2\<^sup>3\<^sup>2\<close> as soon as it is computed.
\<close>

lemma norm32_of_nat: "norm32 (word_of_nat n) = word_of_nat (n mod 4294967296)"
proof -
  have "(word_of_nat (n mod 2 ^ 32) :: u32) = word_of_nat n"
    by (simp add: word_of_nat_eq_iff take_bit_eq_mod)
  then show ?thesis by (simp add: norm32_def)
qed

lemma norm32_numeral: "norm32 (numeral k) = word_of_nat (numeral k mod 4294967296)"
  using norm32_of_nat[of "numeral k"] by simp

lemma norm32_0: "norm32 0 = 0" and norm32_1: "norm32 1 = 1"
  by (simp_all add: norm32_def)

lemma rounds_eval:
  "rounds (k # ks)
          (w0 # w1 # w2 # w3 # w4 # w5 # w6 # w7 # w8 # w9 # w10 # w11 # w12 # w13 # w14 # w15 # ws)
          [a, b, c, d, e, f, g, h] =
     rounds ks
       [w1, w2, w3, w4, w5, w6, w7, w8, w9, w10, w11, w12, w13, w14, w15,
        norm32 (ssig1 w14 + w9 + ssig0 w1 + w0)]
       [norm32 (h + bsig1 e + Ch e f g + k + w0 + (bsig0 a + Maj a b c)), a, b, c,
        norm32 (d + (h + bsig1 e + Ch e f g + k + w0)), e, f, g]"
  by (simp add: Let_def norm32_def)

lemma rounds_Nil: "rounds [] w s = s"
  by simp

lemma block_eval: "block s p = map norm32 (map2 (+) s (rounds sha256_K (be32 p) s))"
  by (simp add: block_def norm32_def)

lemma blocks_numeral:
  "blocks (numeral n) s p = blocks (pred_numeral n) (block s (take 64 p)) (drop 64 p)"
  by (simp add: numeral_eq_Suc)

lemma blocks_one: "blocks (Suc 0) s p = block s (take 64 p)"
  by simp

lemma replicate_numeral: "replicate (numeral n) x = x # replicate (pred_numeral n) x"
  by (simp add: numeral_eq_Suc)

lemmas sha256_eval =
  Sum256_def sha256_pad_def be_bytes64_def be_bytes32_def block_eval blocks_numeral blocks_one
  replicate_numeral rounds_eval rounds_Nil sha256_K_def sha256_init_def
  bsig0_def bsig1_def ssig0_def ssig1_def rotr_def Ch_def Maj_def Let_def
  norm32_numeral norm32_0 norm32_1

text \<open>The first test vector of FIPS 180-4: the digest of the three bytes of \<^verbatim>\<open>abc\<close>.\<close>

lemma Sum256_abc:
  "Sum256 (bytes_of ''abc'') =
     [0xba, 0x78, 0x16, 0xbf, 0x8f, 0x01, 0xcf, 0xea, 0x41, 0x41, 0x40, 0xde, 0x5d, 0xae, 0x22, 0x23,
      0xb0, 0x03, 0x61, 0xa3, 0x96, 0x17, 0x7a, 0x9c, 0xb4, 0x10, 0xff, 0x61, 0xf2, 0x00, 0x15, 0xad]"
  by (simp add: bytes_of_def sha256_eval del: rounds.simps)

text \<open>
  The digests of the four transactions, whose texts are \<^verbatim>\<open>tx1:Alice->Bob:0.00\<close>,
  \<^verbatim>\<open>tx2:Bob->Charlie:0.00\<close>, \<^verbatim>\<open>tx3:Charlie->Dave:0.00\<close> and \<^verbatim>\<open>tx4:Dave->Eve:0.00\<close>.
\<close>

lemma tx1_digest:
  "Transaction_Hash f2_zero tx1 =
     [187, 154, 97, 94, 228, 196, 86, 142, 73, 70, 34, 110, 195, 215, 217, 148,
      229, 217, 54, 47, 255, 0, 140, 102, 181, 74, 250, 32, 42, 235, 72, 181]"
  by (simp add: Transaction_Hash_def Transaction_String_def bytes_of_def f2_zero_def
        tx1_def sha256_eval del: rounds.simps)

lemma tx2_digest:
  "Transaction_Hash f2_zero tx2 =
     [108, 237, 170, 210, 6, 26, 223, 92, 131, 45, 91, 47, 216, 178, 151, 146,
      18, 229, 115, 89, 108, 251, 63, 22, 188, 47, 96, 63, 51, 154, 56, 19]"
  by (simp add: Transaction_Hash_def Transaction_String_def bytes_of_def f2_zero_def
        tx2_def sha256_eval del: rounds.simps)

lemma tx3_digest:
  "Transaction_Hash f2_zero tx3 =
     [7, 82, 143, 159, 163, 164, 246, 70, 147, 211, 201, 94, 16, 197, 152, 107,
      28, 225, 150, 39, 231, 181, 172, 165, 188, 8, 54, 96, 141, 200, 199, 35]"
  by (simp add: Transaction_Hash_def Transaction_String_def bytes_of_def f2_zero_def
        tx3_def sha256_eval del: rounds.simps)

lemma tx4_digest:
  "Transaction_Hash f2_zero tx4 =
     [101, 128, 175, 118, 60, 202, 184, 105, 180, 180, 241, 21, 12, 248, 116, 56,
      91, 79, 148, 208, 194, 100, 131, 250, 110, 254, 247, 102, 81, 136, 20, 120]"
  by (simp add: Transaction_Hash_def Transaction_String_def bytes_of_def f2_zero_def
        tx4_def sha256_eval del: rounds.simps)

text \<open>
  Digests of two digests, messages of two blocks: the first digest with itself and with
  the second, the third with the fourth, and the two candidates for the root that these
  give.
\<close>

lemma tx1_pair_digest:
  "Sum256 ([187, 154, 97, 94, 228, 196, 86, 142, 73, 70, 34, 110, 195, 215, 217, 148,
            229, 217, 54, 47, 255, 0, 140, 102, 181, 74, 250, 32, 42, 235, 72, 181] @
           [187, 154, 97, 94, 228, 196, 86, 142, 73, 70, 34, 110, 195, 215, 217, 148,
            229, 217, 54, 47, 255, 0, 140, 102, 181, 74, 250, 32, 42, 235, 72, 181]) =
     [132, 111, 47, 177, 220, 223, 216, 111, 153, 198, 151, 103, 84, 220, 106, 4,
      162, 230, 79, 157, 131, 217, 11, 177, 25, 174, 122, 26, 6, 11, 68, 111]"
  by (simp add: sha256_eval del: rounds.simps)

lemma tx1_tx2_digest:
  "Sum256 ([187, 154, 97, 94, 228, 196, 86, 142, 73, 70, 34, 110, 195, 215, 217, 148,
            229, 217, 54, 47, 255, 0, 140, 102, 181, 74, 250, 32, 42, 235, 72, 181] @
           [108, 237, 170, 210, 6, 26, 223, 92, 131, 45, 91, 47, 216, 178, 151, 146,
            18, 229, 115, 89, 108, 251, 63, 22, 188, 47, 96, 63, 51, 154, 56, 19]) =
     [46, 130, 165, 235, 214, 245, 128, 197, 8, 90, 124, 150, 164, 84, 251, 224,
      254, 253, 9, 15, 213, 40, 69, 118, 132, 201, 70, 115, 3, 39, 97, 115]"
  by (simp add: sha256_eval del: rounds.simps)

lemma tx3_tx4_digest:
  "Sum256 ([7, 82, 143, 159, 163, 164, 246, 70, 147, 211, 201, 94, 16, 197, 152, 107,
            28, 225, 150, 39, 231, 181, 172, 165, 188, 8, 54, 96, 141, 200, 199, 35] @
           [101, 128, 175, 118, 60, 202, 184, 105, 180, 180, 241, 21, 12, 248, 116, 56,
            91, 79, 148, 208, 194, 100, 131, 250, 110, 254, 247, 102, 81, 136, 20, 120]) =
     [52, 4, 245, 4, 215, 176, 247, 82, 207, 81, 214, 119, 198, 194, 184, 40,
      182, 249, 53, 196, 3, 4, 21, 123, 252, 95, 20, 192, 26, 132, 1, 172]"
  by (simp add: sha256_eval del: rounds.simps)

lemma four_root_digest:
  "Sum256 ([46, 130, 165, 235, 214, 245, 128, 197, 8, 90, 124, 150, 164, 84, 251, 224,
            254, 253, 9, 15, 213, 40, 69, 118, 132, 201, 70, 115, 3, 39, 97, 115] @
           [52, 4, 245, 4, 215, 176, 247, 82, 207, 81, 214, 119, 198, 194, 184, 40,
            182, 249, 53, 196, 3, 4, 21, 123, 252, 95, 20, 192, 26, 132, 1, 172]) =
     [23, 98, 176, 120, 8, 180, 121, 62, 237, 61, 149, 165, 41, 4, 24, 51,
      23, 46, 222, 8, 136, 116, 92, 146, 37, 85, 28, 22, 132, 27, 185, 44]"
  by (simp add: sha256_eval del: rounds.simps)

lemma four_other_digest:
  "Sum256 ([132, 111, 47, 177, 220, 223, 216, 111, 153, 198, 151, 103, 84, 220, 106, 4,
            162, 230, 79, 157, 131, 217, 11, 177, 25, 174, 122, 26, 6, 11, 68, 111] @
           [52, 4, 245, 4, 215, 176, 247, 82, 207, 81, 214, 119, 198, 194, 184, 40,
            182, 249, 53, 196, 3, 4, 21, 123, 252, 95, 20, 192, 26, 132, 1, 172]) =
     [118, 154, 201, 221, 212, 153, 192, 22, 169, 60, 239, 74, 70, 211, 27, 174,
      220, 237, 173, 18, 44, 128, 113, 27, 77, 135, 78, 108, 150, 102, 82, 72]"
  by (simp add: sha256_eval del: rounds.simps)

lemma distinct_hextable: "distinct hextable"
  by (simp add: hextable_def)

lemma length_hextable: "length hextable = 16"
  by (simp add: hextable_def)


lemma hi_nibble: "unat (drop_bit 4 (v::byte)) < 16"
proof -
  have "unat v < 256" using unsigned_less[of v] by simp
  moreover have "unat (drop_bit 4 v) = unat v div 16"
    unfolding unat_drop_bit_eq drop_bit_eq_div by (simp add: unat_div)
  ultimately show ?thesis by simp
qed

lemma lo_nibble: "unat ((v::byte) AND 0x0f) < 16"
proof -
  have "v AND 0x0f \<le> 0x0f" by (rule word_and_le1)
  then have "unat (v AND 0x0f) \<le> unat (0x0f :: byte)" by (simp add: word_le_nat_alt)
  then show ?thesis by simp
qed

lemma byte_nibbles:
  assumes hi: "drop_bit 4 (v::byte) = drop_bit 4 w" and lo: "v AND 0x0f = w AND 0x0f"
  shows "v = w"
proof (rule bit_eqI)
  fix n
  have m: "(0x0f :: byte) = mask 4" by (simp add: mask_eq_exp_minus_1)
  show "bit v n = bit w n"
  proof (cases "n < 4")
    case True
    have "bit (v AND mask 4) n = bit (w AND mask 4) n" using lo m by simp
    with True show ?thesis by (simp add: bit_and_iff bit_mask_iff)
  next
    case False
    have "bit (drop_bit 4 v) (n - 4) = bit (drop_bit 4 w) (n - 4)" using hi by simp
    with False show ?thesis by (simp add: bit_drop_bit_eq)
  qed
qed

lemma hex_digit_inj:
  "a < 16 \<Longrightarrow> b < 16 \<Longrightarrow> hextable ! a = hextable ! b \<Longrightarrow> a = b"
  using nth_eq_iff_index_eq[OF distinct_hextable, of a b] by (simp add: length_hextable)

lemma EncodeToString_inj: "EncodeToString a = EncodeToString b \<longleftrightarrow> a = b"
proof (induction a arbitrary: b)
  case Nil
  then show ?case by (cases b) simp_all
next
  case (Cons v a)
  show ?case
  proof (cases b)
    case Nil
    then show ?thesis by simp
  next
    case (Cons w b')
    have "v = w" if "hextable ! unat (drop_bit 4 v) = hextable ! unat (drop_bit 4 w)"
      and "hextable ! unat (v AND 0x0f) = hextable ! unat (w AND 0x0f)"
    proof -
      have "unat (drop_bit 4 v) = unat (drop_bit 4 w)"
        using that(1) hi_nibble hex_digit_inj by blast
      then have hi: "drop_bit 4 v = drop_bit 4 w" by (simp only: word_unat_eq_iff)
      have "unat (v AND 0x0f) = unat (w AND 0x0f)"
        using that(2) lo_nibble hex_digit_inj by blast
      then have lo: "v AND 0x0f = w AND 0x0f" by (simp only: word_unat_eq_iff)
      show ?thesis by (rule byte_nibbles[OF hi lo])
    qed
    with Cons Cons.IH show ?thesis by auto
  qed
qed

section \<open>The loops\<close>

declare build_loop.simps [simp del] proof_loop.simps [simp del]
declare spec_reduce.simps [simp del] levels.simps [simp del]

lemma Hash_NewMerkleNode_Some [simp]:
  "Hash (NewMerkleNode (Some l) (Some r) d) = Sum256 (Hash l @ Hash r)"
  by (simp add: NewMerkleNode_def)

lemma Hash_NewMerkleNode_None [simp]:
  "Hash (NewMerkleNode None None d) = d"
  by (simp add: NewMerkleNode_def)

lemma length_pairs [simp]: "length (pairs ns) = length ns div 2"
  by (induction ns rule: pairs.induct) simp_all

lemma pair_nodes_even: "even (length ns) \<Longrightarrow> pair_nodes ns = Inr (pairs ns)"
  by (induction ns rule: pairs.induct) simp_all

lemma pair_nodes_odd: "odd (length ns) \<Longrightarrow> pair_nodes ns = Inl Panic_index_out_of_range"
  by (induction ns rule: pairs.induct) simp_all

lemma pairs_nth:
  "k < length ns div 2 \<Longrightarrow>
     pairs ns ! k = NewMerkleNode (Some (ns ! (2 * k))) (Some (ns ! (2 * k + 1))) []"
proof (induction ns arbitrary: k rule: pairs.induct)
  case (1 l r rest)
  then show ?case by (cases k) simp_all
qed simp_all


lemma proof_pairs_miss:
  "even (length ns) \<Longrightarrow> cur < i \<or> i + int (length ns) \<le> cur \<Longrightarrow>
     proof_pairs i ns cur p acc = Inr (cur, p, acc @ pairs ns)"
proof (induction ns arbitrary: i acc rule: pairs.induct)
  case (1 l r rest)
  from "1.prems" have "even (length rest)" "cur < i + 2 \<or> i + 2 + int (length rest) \<le> cur"
    "i \<noteq> cur" "i + 1 \<noteq> cur"
    by auto
  then show ?case by (simp add: "1.IH")
qed simp_all

lemma proof_pairs_hit:
  assumes "even (length ns)" "even i" "0 \<le> i" "i \<le> cur" "cur < i + int (length ns)"
  shows "proof_pairs i ns cur p acc =
     Inr (cur div 2,
          p\<lparr>Hashes := Hashes p @ [Hash (ns ! (if even cur then nat (cur - i) + 1 else nat (cur - i) - 1))],
            Positions := Positions p @ [even cur]\<rparr>,
          acc @ pairs ns)"
  using assms
proof (induction ns arbitrary: i acc rule: pairs.induct)
  case (1 l r rest)
  have e: "even (length rest)" "even (i + 2)" "0 \<le> i + 2" using 1 by auto
  consider (left) "i = cur" | (right) "i + 1 = cur" | (later) "i + 2 \<le> cur"
    using "1.prems" by linarith
  then show ?case
  proof cases
    case left
    then have "cur div 2 < i + 2" using "1.prems" by linarith
    with left "1.prems" e show ?thesis
      by (simp add: proof_pairs_miss)
  next
    case right
    then have "i div 2 < i + 2" "i div 2 = cur div 2" "odd cur" "i \<noteq> cur" using "1.prems" by auto
    with right "1.prems" e show ?thesis
      by (simp add: proof_pairs_miss)
  next
    case later
    then have ne: "i \<noteq> cur" "i + 1 \<noteq> cur" and lt: "cur < i + 2 + int (length rest)"
      using "1.prems" by auto
    have n2: "nat (cur - i) = Suc (Suc (nat (cur - (i + 2))))" using later by linarith
    have pos: "even cur \<or> 0 < nat (cur - (i + 2))" using later e(2) by (cases "cur = i + 2") auto
    show ?thesis
      using ne pos "1.IH"[OF e later lt] by (auto simp: n2)
  qed
qed simp_all


lemma code_pad_eq: "(if length level mod 2 \<noteq> 0 \<and> length level > 1 then level @ [last level] else level) = spec_pad level"
  by (auto simp: spec_pad_def odd_iff_mod_2_eq_one)

lemma spec_pad_idem: "length nodes = 1 \<or> even (length nodes) \<Longrightarrow> spec_pad nodes = nodes"
  by (auto simp: spec_pad_def)

lemma spec_pad_shape: "length (spec_pad level) \<le> 1 \<or> even (length (spec_pad level))"
  by (auto simp: spec_pad_def)

lemma spec_reduce_pad: "spec_reduce (spec_pad level) = spec_reduce level"
proof (cases "length level \<le> 1")
  case True
  then show ?thesis by (simp add: spec_pad_def)
next
  case False
  then have "\<not> length (spec_pad level) \<le> 1" by (auto simp: spec_pad_def)
  moreover have "spec_pad (spec_pad level) = spec_pad level" by (auto simp: spec_pad_def)
  ultimately show ?thesis using False
    by (subst spec_reduce.simps, subst (2) spec_reduce.simps) simp
qed

lemma build_loop_spec:
  "length nodes \<le> 1 \<or> even (length nodes) \<Longrightarrow> build_loop nodes = Inr (spec_reduce nodes)"
proof (induction nodes rule: build_loop.induct)
  case (1 nodes)
  show ?case
  proof (cases "1 < length nodes")
    case False
    then show ?thesis by (simp add: build_loop.simps spec_reduce.simps)
  next
    case True
    with 1(2) have ev: "even (length nodes)" by auto
    have pn: "pair_nodes nodes = Inr (pairs nodes)" by (rule pair_nodes_even[OF ev])
    have ih: "build_loop (spec_pad (pairs nodes)) = Inr (spec_reduce (spec_pad (pairs nodes)))"
      using 1(1)[OF True pn, unfolded code_pad_eq] spec_pad_shape[of "pairs nodes"] by simp
    have "build_loop nodes = build_loop (spec_pad (pairs nodes))"
      using True by (subst build_loop.simps, unfold code_pad_eq) (simp add: pn)
    also have "\<dots> = Inr (spec_reduce (pairs nodes))" by (simp add: ih spec_reduce_pad)
    also have "spec_reduce (pairs nodes) = spec_reduce nodes"
      using True ev by (subst (2) spec_reduce.simps) (simp add: spec_pad_idem)
    finally show ?thesis .
  qed
qed

lemma verify_loop_climb:
  "i + length hs \<le> length ps \<Longrightarrow> verify_loop i hs ps cur = Inr (climb hs (drop i ps) cur)"
proof (induction hs arbitrary: i cur)
  case Nil
  then show ?case by simp
next
  case (Cons h hs)
  then have "i < length ps" by simp
  then have "drop i ps = ps ! i # drop (Suc i) ps" by (simp add: Cons_nth_drop_Suc)
  with Cons show ?case by simp
qed

lemma verify_loop_panic:
  "hs \<noteq> [] \<Longrightarrow> length ps < i + length hs \<Longrightarrow> verify_loop i hs ps cur = Inl Panic_index_out_of_range"
proof (induction hs arbitrary: i cur)
  case Nil
  then show ?case by simp
next
  case (Cons h hs)
  then show ?case by (cases hs) auto
qed

lemma pow2_lt_odd:
  fixes k c :: nat
  assumes "odd k" "1 < k" "2 ^ c < 2 * (k + 1)"
  shows "2 ^ c < 2 * k"
proof (cases c)
  case 0
  with assms show ?thesis by simp
next
  case (Suc d)
  with assms have le: "(2::nat) ^ d \<le> k" by simp
  have "(2::nat) ^ d \<noteq> k"
  proof (cases d)
    case 0
    with assms show ?thesis by simp
  next
    case (Suc e)
    then have "even ((2::nat) ^ d)" by simp
    with assms show ?thesis by metis
  qed
  with le have "(2::nat) ^ d < k" by simp
  with Suc show ?thesis by simp
qed

lemma climb_step:
  assumes "even (length nodes)" "0 \<le> cur" "cur < int (length nodes)"
  shows "Sum256 (if even cur then Hash (nodes ! nat cur) @ Hash (nodes ! (nat cur + 1))
                 else Hash (nodes ! (nat cur - 1)) @ Hash (nodes ! nat cur))
         = Hash (pairs nodes ! nat (cur div 2))"
proof -
  define k where "k = nat cur"
  have cur: "cur = int k" using assms k_def by simp
  have k: "k < length nodes" using assms k_def by linarith
  have d: "nat (int k div 2) = k div 2" by linarith
  have lt: "k div 2 < length nodes div 2" using k assms(1) by (auto elim!: evenE)
  show ?thesis
  proof (cases "even k")
    case True
    then have "2 * (k div 2) = k" by simp
    with True lt show ?thesis
      by (simp add: d pairs_nth cur flip: k_def)
  next
    case False
    then have "2 * (k div 2) + 1 = k" "2 * (k div 2) = k - 1" by (auto elim!: oddE)
    with False lt show ?thesis
      by (simp add: d pairs_nth cur flip: k_def)
  qed
qed

lemma loops_agree:
  assumes "nodes \<noteq> []" "length nodes = 1 \<or> even (length nodes)" "0 \<le> cur" "cur < int (length nodes)"
  shows "\<exists>root hs ps.
           build_loop nodes = Inr [root] \<and>
           proof_loop nodes cur p = Inr (p\<lparr>Hashes := Hashes p @ hs, Positions := Positions p @ ps\<rparr>) \<and>
           length ps = length hs \<and>
           climb hs ps (Hash (nodes ! nat cur)) = Hash root \<and>
           (\<forall>k<length ps. ps ! k = even (cur div 2 ^ k)) \<and>
           length hs = length (levels nodes) \<and>
           (\<forall>k<length hs. sibling (cur div 2 ^ k) < length (levels nodes ! k) \<and>
                           hs ! k = Hash (levels nodes ! k ! sibling (cur div 2 ^ k))) \<and>
           length nodes \<le> 2 ^ length hs \<and> 2 ^ length hs < 2 * length nodes"
  using assms
proof (induction "length nodes" arbitrary: nodes cur p rule: less_induct)
  case less
  show ?case
  proof (cases "length nodes = 1")
    case True
    then obtain r where r: "nodes = [r]" by (cases nodes) auto
    have "build_loop nodes = Inr [r]" "proof_loop nodes cur p = Inr p" "levels nodes = []"
      by (simp_all add: r build_loop.simps proof_loop.simps levels.simps)
    moreover have "nat cur = 0" using less.prems True by simp
    ultimately show ?thesis
      by (intro exI[of _ r] exI[of _ "[]"]) (simp add: r)
  next
    case False
    with less.prems have ev: "even (length nodes)" and big: "1 < length nodes"
      by (auto simp: Suc_lessI)
    define level where "level = pairs nodes"
    define nxt where "nxt = spec_pad level"
    define sib where "sib = Hash (nodes ! sibling cur)"
    define p1 where "p1 = p\<lparr>Hashes := Hashes p @ [sib], Positions := Positions p @ [even cur]\<rparr>"
    have len_level: "length level = length nodes div 2" by (simp add: level_def)
    have level_pos: "0 < length level" using big ev len_level by (auto elim!: evenE)
    have b: "build_loop nodes = build_loop nxt"
      using big
      by (subst build_loop.simps, unfold code_pad_eq) (simp add: pair_nodes_even ev nxt_def level_def)
    have pp: "proof_pairs 0 nodes cur p [] = Inr (cur div 2, p1, level)"
      using proof_pairs_hit[of nodes 0 cur p "[]"] less.prems ev
      by (simp add: p1_def sib_def level_def sibling_def)
    have lv: "levels nodes = nodes # levels nxt"
      using big by (subst levels.simps) (simp add: nxt_def level_def)
    have g: "proof_loop nodes cur p = proof_loop nxt (cur div 2) p1"
      using big by (subst proof_loop.simps, unfold code_pad_eq) (simp add: pp nxt_def)
    have c2: "0 \<le> cur div 2" "cur div 2 < int (length level)"
      using less.prems ev len_level by (auto elim!: evenE)
    have nxt_len: "length nxt = length level \<or> (length nxt = length level + 1 \<and> odd (length level) \<and> 1 < length level)"
      by (auto simp: nxt_def spec_pad_def)
    have nxt_lt: "length nxt < length nodes"
      using nxt_len len_level big ev by (auto elim!: evenE)
    have nxt_shape: "nxt \<noteq> []" "length nxt = 1 \<or> even (length nxt)" "cur div 2 < int (length nxt)"
      using nxt_len level_pos c2 by (auto simp: nxt_def spec_pad_def)
    have nxt_nth: "nxt ! nat (cur div 2) = level ! nat (cur div 2)"
      using c2 by (auto simp: nxt_def spec_pad_def nth_append)
    from less.hyps[OF nxt_lt nxt_shape(1,2) c2(1) nxt_shape(3), of p1]
    obtain root hs ps where
      ih: "build_loop nxt = Inr [root]"
          "proof_loop nxt (cur div 2) p1 = Inr (p1\<lparr>Hashes := Hashes p1 @ hs, Positions := Positions p1 @ ps\<rparr>)"
          "length ps = length hs"
          "climb hs ps (Hash (nxt ! nat (cur div 2))) = Hash root"
          "\<forall>k<length ps. ps ! k = even (cur div 2 div 2 ^ k)"
          "length hs = length (levels nxt)"
          "\<forall>k<length hs. sibling (cur div 2 div 2 ^ k) < length (levels nxt ! k) \<and>
                          hs ! k = Hash (levels nxt ! k ! sibling (cur div 2 div 2 ^ k))"
          "length nxt \<le> 2 ^ length hs" "2 ^ length hs < 2 * length nxt"
      by blast
    have step: "Sum256 (if even cur then Hash (nodes ! nat cur) @ sib else sib @ Hash (nodes ! nat cur))
                = Hash (level ! nat (cur div 2))"
      using climb_step[OF ev less.prems(3,4)]
      by (cases "even cur") (simp_all add: sib_def level_def sibling_def)
    have cl: "climb (sib # hs) (even cur # ps) (Hash (nodes ! nat cur)) = Hash root"
      using ih(4) step by (simp add: nxt_nth)
    have pos: "\<forall>k<length (even cur # ps). (even cur # ps) ! k = even (cur div 2 ^ k)"
    proof (intro allI impI)
      fix k assume "k < length (even cur # ps)"
      then show "(even cur # ps) ! k = even (cur div 2 ^ k)"
        using ih(5) by (cases k) (simp_all add: zdiv_zmult2_eq)
    qed
    have s0: "sibling cur < length nodes"
      using less.prems(3,4) ev by (auto simp: sibling_def elim!: evenE oddE)
    have sibs: "\<forall>k<length (sib # hs).
                  sibling (cur div 2 ^ k) < length (levels nodes ! k) \<and>
                  (sib # hs) ! k = Hash (levels nodes ! k ! sibling (cur div 2 ^ k))"
    proof (intro allI impI)
      fix k assume "k < length (sib # hs)"
      then show "sibling (cur div 2 ^ k) < length (levels nodes ! k) \<and>
                 (sib # hs) ! k = Hash (levels nodes ! k ! sibling (cur div 2 ^ k))"
        using ih(7) s0 by (cases k) (simp_all add: lv sib_def zdiv_zmult2_eq)
    qed
    have up: "length nodes \<le> 2 ^ length (sib # hs)"
      using ih(8) nxt_len len_level ev by (auto elim!: evenE)
    have "2 ^ length hs < 2 * length level"
      using nxt_len ih(9) pow2_lt_odd[of "length level" "length hs"] by auto
    then have lo: "2 ^ length (sib # hs) < 2 * length nodes"
      using len_level ev by (auto elim!: evenE)
    show ?thesis
      apply (intro exI[of _ root] exI[of _ "sib # hs"] exI[of _ "even cur # ps"])
      using b g ih(1,2,3,6) cl pos sibs up lo
      by (simp add: p1_def lv)
  qed
qed


section \<open>Trees built by the constructor\<close>

lemma code_dup_eq:
  "(if length nodes mod 2 \<noteq> 0 then nodes @ [last nodes] else nodes) = dup_if_odd nodes"
  by (auto simp: dup_if_odd_def odd_iff_mod_2_eq_one)

lemma code_leaves_eq:
  "map (\<lambda>tx. NewMerkleNode None None (Transaction_Hash f2 tx)) transactions = leaf_nodes f2 transactions"
  by (simp add: leaf_nodes_def NewMerkleNode_def)

lemma dup_if_odd_shape:
  "nodes \<noteq> [] \<Longrightarrow> dup_if_odd nodes \<noteq> [] \<and> even (length (dup_if_odd nodes))"
  by (auto simp: dup_if_odd_def)

lemma dup_if_odd_nth: "k < length nodes \<Longrightarrow> dup_if_odd nodes ! k = nodes ! k"
  by (auto simp: dup_if_odd_def nth_append)

lemma NewMerkleTree_unfold:
  "transactions \<noteq> [] \<Longrightarrow>
   NewMerkleTree f2 transactions =
     (case build_loop (dup_if_odd (leaf_nodes f2 transactions)) of
        Inl e \<Rightarrow> Inl e
      | Inr [] \<Rightarrow> Inl Panic_index_out_of_range
      | Inr (node # _) \<Rightarrow>
          Inr \<lparr>Root = node, Transactions = transactions, Leaves = leaf_nodes f2 transactions\<rparr>)"
  unfolding NewMerkleTree_def Let_def code_leaves_eq code_dup_eq by simp

lemma GenerateProof_unfold:
  "0 \<le> i \<Longrightarrow> i < int (length (Transactions mt)) \<Longrightarrow>
   GenerateProof mt i = (mt, proof_loop (dup_if_odd (Leaves mt)) i \<lparr>Hashes = [], Positions = []\<rparr>)"
  unfolding GenerateProof_def Let_def code_dup_eq by simp

lemma generate_built:
  assumes "transactions \<noteq> []" "0 \<le> i" "i < int (length transactions)"
  shows "\<exists>root hs ps.
     NewMerkleTree f2 transactions =
       Inr \<lparr>Root = root, Transactions = transactions, Leaves = leaf_nodes f2 transactions\<rparr> \<and>
     GenerateProof \<lparr>Root = root, Transactions = transactions, Leaves = leaf_nodes f2 transactions\<rparr> i =
       (\<lparr>Root = root, Transactions = transactions, Leaves = leaf_nodes f2 transactions\<rparr>,
        Inr \<lparr>Hashes = hs, Positions = ps\<rparr>) \<and>
     spec_reduce (dup_if_odd (leaf_nodes f2 transactions)) = [root] \<and>
     length ps = length hs \<and>
     climb hs ps (Transaction_Hash f2 (transactions ! nat i)) = Hash root \<and>
     (\<forall>k<length ps. ps ! k = even (i div 2 ^ k)) \<and>
     length hs = length (levels (dup_if_odd (leaf_nodes f2 transactions))) \<and>
     (\<forall>k<length hs.
        sibling (i div 2 ^ k) < length (levels (dup_if_odd (leaf_nodes f2 transactions)) ! k) \<and>
        hs ! k =
          Hash (levels (dup_if_odd (leaf_nodes f2 transactions)) ! k ! sibling (i div 2 ^ k))) \<and>
     length (dup_if_odd (leaf_nodes f2 transactions)) \<le> 2 ^ length hs \<and>
     2 ^ length hs < 2 * length (dup_if_odd (leaf_nodes f2 transactions))"
proof -
  define leaves where "leaves = leaf_nodes f2 transactions"
  define nodes where "nodes = dup_if_odd leaves"
  have ll: "length leaves = length transactions" by (simp add: leaves_def leaf_nodes_def)
  have ne: "leaves \<noteq> []" using assms(1) ll by auto
  have shape: "nodes \<noteq> []" "length nodes = 1 \<or> even (length nodes)"
    using dup_if_odd_shape[OF ne] by (simp_all add: nodes_def)
  have lt: "i < int (length nodes)"
    using assms(3) ll by (auto simp: nodes_def dup_if_odd_def)
  have nth: "Hash (nodes ! nat i) = Transaction_Hash f2 (transactions ! nat i)"
    using assms(2,3) ll by (simp add: nodes_def dup_if_odd_nth leaves_def leaf_nodes_def)
  from loops_agree[OF shape assms(2) lt, of "\<lparr>Hashes = [], Positions = []\<rparr>"]
  obtain root hs ps where
    r: "build_loop nodes = Inr [root]"
       "proof_loop nodes i \<lparr>Hashes = [], Positions = []\<rparr> = Inr \<lparr>Hashes = hs, Positions = ps\<rparr>"
       "length ps = length hs"
       "climb hs ps (Hash (nodes ! nat i)) = Hash root"
       "\<forall>k<length ps. ps ! k = even (i div 2 ^ k)"
       "length hs = length (levels nodes)"
       "\<forall>k<length hs. sibling (i div 2 ^ k) < length (levels nodes ! k) \<and>
                       hs ! k = Hash (levels nodes ! k ! sibling (i div 2 ^ k))"
       "length nodes \<le> 2 ^ length hs" "2 ^ length hs < 2 * length nodes"
    by auto
  have sr: "spec_reduce nodes = [root]"
    using build_loop_spec[of nodes] shape(2) r(1) by auto
  have t: "NewMerkleTree f2 transactions =
             Inr \<lparr>Root = root, Transactions = transactions, Leaves = leaves\<rparr>"
    using r(1) by (simp add: NewMerkleTree_unfold[OF assms(1)] leaves_def[symmetric] nodes_def[symmetric])
  have g: "GenerateProof \<lparr>Root = root, Transactions = transactions, Leaves = leaves\<rparr> i =
             (\<lparr>Root = root, Transactions = transactions, Leaves = leaves\<rparr>,
              Inr \<lparr>Hashes = hs, Positions = ps\<rparr>)"
    using r(2) assms(2,3) by (simp add: GenerateProof_unfold nodes_def[symmetric])
  show ?thesis
    unfolding leaves_def[symmetric] nodes_def[symmetric]
    using t g sr r(3-9) nth by auto
qed

lemma VerifyProof_climb:
  "length (Hashes p) \<le> length (Positions p) \<Longrightarrow>
     VerifyProof d (Some p) r = Inr (climb (Hashes p) (Positions p) d = r)"
  by (simp add: VerifyProof_def verify_loop_climb EncodeToString_inj)

lemma VerifyProof_panic:
  assumes "length (Positions p) < length (Hashes p)"
  shows "VerifyProof d (Some p) r = Inl Panic_index_out_of_range"
proof -
  from assms have "Hashes p \<noteq> []" by auto
  from verify_loop_panic[OF this, of "Positions p" 0 d] assms
  show ?thesis by (simp add: VerifyProof_def)
qed

lemma NewMerkleTree_single:
  "NewMerkleTree f2 [t] =
     Inr \<lparr>Root = MerkleNode (Some (MerkleNode None None (Transaction_Hash f2 t)))
                             (Some (MerkleNode None None (Transaction_Hash f2 t)))
                             (Sum256 (Transaction_Hash f2 t @ Transaction_Hash f2 t)),
          Transactions = [t],
          Leaves = [MerkleNode None None (Transaction_Hash f2 t)]\<rparr>"
  by (simp add: NewMerkleTree_def build_loop.simps NewMerkleNode_def)

lemma GenerateProof_single:
  "Transactions mt = [t] \<Longrightarrow> Leaves mt = [leaf] \<Longrightarrow>
     GenerateProof mt 0 = (mt, Inr \<lparr>Hashes = [Hash leaf], Positions = [True]\<rparr>)"
  by (simp add: GenerateProof_def proof_loop.simps)

lemma NewMerkleTree_four:
  "NewMerkleTree f2 [t0, t1, t2, t3] =
     Inr \<lparr>Root = NewMerkleNode
                   (Some (NewMerkleNode (Some (MerkleNode None None (Transaction_Hash f2 t0)))
                                        (Some (MerkleNode None None (Transaction_Hash f2 t1))) []))
                   (Some (NewMerkleNode (Some (MerkleNode None None (Transaction_Hash f2 t2)))
                                        (Some (MerkleNode None None (Transaction_Hash f2 t3))) []))
                   [],
          Transactions = [t0, t1, t2, t3],
          Leaves = leaf_nodes f2 [t0, t1, t2, t3]\<rparr>"
  by (simp add: NewMerkleTree_unfold dup_if_odd_def leaf_nodes_def build_loop.simps)

lemma GenerateProof_four:
  "Transactions mt = [t0, t1, t2, t3] \<Longrightarrow> Leaves mt = [n0, n1, n2, n3] \<Longrightarrow>
     GenerateProof mt 1 =
       (mt, Inr \<lparr>Hashes = [Hash n0, Sum256 (Hash n2 @ Hash n3)], Positions = [False, True]\<rparr>)"
  by (simp add: GenerateProof_def proof_loop.simps)

lemma two_pow_between:
  fixes c :: nat
  assumes "2 \<le> (2::nat) ^ c" "(2::nat) ^ c < 4"
  shows "c = 1"
proof (cases c)
  case 0
  with assms show ?thesis by simp
next
  case (Suc d)
  show ?thesis
  proof (cases d)
    case 0
    with Suc show ?thesis by simp
  next
    case (Suc e)
    with \<open>c = Suc d\<close> assms(2) show ?thesis by simp
  qed
qed

lemma hash_rule_pairs:
  "\<forall>n\<in>set nodes. hash_rule D n \<Longrightarrow> \<forall>n\<in>set (pairs nodes). hash_rule D n"
  by (induction nodes rule: pairs.induct) (simp_all add: NewMerkleNode_def)

lemma set_spec_pad: "set (spec_pad level) = set level"
  by (cases "level = []") (auto simp: spec_pad_def)

lemma set_dup_if_odd: "set (dup_if_odd nodes) = set nodes"
  by (cases "nodes = []") (auto simp: dup_if_odd_def)

lemma hash_rule_spec_reduce:
  "\<forall>n\<in>set nodes. hash_rule D n \<Longrightarrow> \<forall>n\<in>set (spec_reduce nodes). hash_rule D n"
proof (induction nodes rule: spec_reduce.induct)
  case (1 level)
  show ?case
  proof (cases "length level \<le> 1")
    case True
    with 1(2) show ?thesis by (subst spec_reduce.simps) simp
  next
    case False
    have "\<forall>n\<in>set (pairs (spec_pad level)). hash_rule D n"
      using 1(2) by (intro hash_rule_pairs) (simp add: set_spec_pad)
    from 1(1)[OF False this] False show ?thesis
      by (subst spec_reduce.simps) simp
  qed
qed

lemma spec_reduce_dup:
  assumes "1 < length nodes"
  shows "spec_reduce (dup_if_odd nodes) = spec_reduce nodes"
proof -
  have d: "dup_if_odd nodes = spec_pad nodes" using assms by (simp add: dup_if_odd_def spec_pad_def)
  show ?thesis unfolding d by (rule spec_reduce_pad)
qed

lemma proof_pairs_lengths:
  "proof_pairs i ns c p acc = Inr (c', p', l) \<Longrightarrow>
   length (Hashes p) = length (Positions p) \<Longrightarrow> length (Hashes p') = length (Positions p')"
  by (induction i ns c p acc rule: proof_pairs.induct) (auto split: if_splits simp: Let_def)

lemma proof_loop_lengths:
  "proof_loop nodes c p = Inr p' \<Longrightarrow>
   length (Hashes p) = length (Positions p) \<Longrightarrow> length (Hashes p') = length (Positions p')"
proof (induction nodes c p rule: proof_loop.induct)
  case (1 nodes c p)
  show ?case
  proof (cases "1 < length nodes")
    case False
    with "1.prems" show ?thesis by (simp add: proof_loop.simps)
  next
    case True
    from "1.prems"(1) True obtain c1 p1 level where
      pp: "proof_pairs 0 nodes c p [] = Inr (c1, p1, level)"
      and rest: "proof_loop (if length level mod 2 \<noteq> 0 \<and> length level > 1
                             then level @ [last level] else level) c1 p1 = Inr p'"
      by (subst (asm) proof_loop.simps) (auto split: sum.splits)
    from proof_pairs_lengths[OF pp "1.prems"(2)]
    have "length (Hashes p1) = length (Positions p1)" .
    from "1.IH"[OF True pp refl refl rest this] show ?thesis .
  qed
qed

lemma GenerateProof_lengths:
  assumes "GenerateProof mt j = (mt', Inr q)"
  shows "length (Hashes q) = length (Positions q)"
proof -
  from assms have "proof_loop (dup_if_odd (Leaves mt)) j \<lparr>Hashes = [], Positions = []\<rparr> = Inr q"
    unfolding GenerateProof_def Let_def code_dup_eq by (auto split: if_splits)
  from proof_loop_lengths[OF this] show ?thesis by simp
qed

lemma side_of_sibling: "0 \<le> idx \<Longrightarrow> (nat idx < sibling idx) = even idx"
  by (auto simp: sibling_def)

section \<open>Round trip\<close>

text \<open>
  C1. For a tree built by \<^verbatim>\<open>NewMerkleTree\<close> from a non-empty list of transactions and an
  index \<open>i\<close> from 0 up to the number of transactions less one, construction succeeds,
  \<^verbatim>\<open>GenerateProof(i)\<close> returns a proof, the digest of the \<open>i\<close>-th leaf is the hash of the
  \<open>i\<close>-th transaction, and \<^verbatim>\<open>VerifyProof\<close> on that digest, that proof and the digest of the
  root returns true.
\<close>

theorem roundtrip:
  assumes "transactions \<noteq> []" "0 \<le> i" "i < int (length transactions)"
  shows "\<exists>tree p. NewMerkleTree f2 transactions = Inr tree \<and>
                  GenerateProof tree i = (tree, Inr p) \<and>
                  Hash (Leaves tree ! nat i) = Transaction_Hash f2 (transactions ! nat i) \<and>
                  VerifyProof (Hash (Leaves tree ! nat i)) (Some p) (Hash (Root tree)) = Inr True"
proof -
  from generate_built[OF assms, of f2] obtain root hs ps where
    t: "NewMerkleTree f2 transactions =
          Inr \<lparr>Root = root, Transactions = transactions, Leaves = leaf_nodes f2 transactions\<rparr>"
    and g: "GenerateProof \<lparr>Root = root, Transactions = transactions, Leaves = leaf_nodes f2 transactions\<rparr> i =
       (\<lparr>Root = root, Transactions = transactions, Leaves = leaf_nodes f2 transactions\<rparr>,
        Inr \<lparr>Hashes = hs, Positions = ps\<rparr>)"
    and l: "length ps = length hs"
    and c: "climb hs ps (Transaction_Hash f2 (transactions ! nat i)) = Hash root"
    by blast
  have d: "Hash (leaf_nodes f2 transactions ! nat i) = Transaction_Hash f2 (transactions ! nat i)"
    using assms(2,3) by (simp add: leaf_nodes_def)
  have v: "VerifyProof (Transaction_Hash f2 (transactions ! nat i))
             (Some \<lparr>Hashes = hs, Positions = ps\<rparr>) (Hash root) = Inr True"
    using l c by (simp add: VerifyProof_climb)
  show ?thesis
    using t g d v by simp
qed

theorem roundtrip_witness:
  "[tx1, tx2, tx3] \<noteq> [] \<and> (0::int) \<le> 2 \<and> (2::int) < int (length [tx1, tx2, tx3]) \<and>
   (\<exists>tree p. NewMerkleTree f2_zero [tx1, tx2, tx3] = Inr tree \<and>
             GenerateProof tree 2 = (tree, Inr p) \<and>
             Hash (Leaves tree ! nat 2) = Transaction_Hash f2_zero ([tx1, tx2, tx3] ! nat 2) \<and>
             VerifyProof (Hash (Leaves tree ! nat 2)) (Some p) (Hash (Root tree)) = Inr True)"
  using roundtrip[of "[tx1, tx2, tx3]" 2 f2_zero] by simp

section \<open>What the verifier does on any input\<close>

text \<open>
  C2 as stated, that \<^verbatim>\<open>VerifyProof\<close> returns a boolean on every proof, fails: on a proof
  with one hash and no position the read of \<^verbatim>\<open>proof.Positions[0]\<close> is out of range.
\<close>

theorem VerifyProof_total_counterexample:
  "VerifyProof [0x01] (Some \<lparr>Hashes = [[0x02]], Positions = []\<rparr>) [0x03] = Inl Panic_index_out_of_range"
  by (simp add: VerifyProof_def)

text \<open>
  C2, amended. \<^verbatim>\<open>VerifyProof\<close> returns a boolean for every leaf digest, every claimed
  root and every proof that is not \<^verbatim>\<open>nil\<close> and has at least as many positions as
  hashes. On a proof with fewer positions than hashes it panics with an index out of
  range, and on the \<^verbatim>\<open>nil\<close> proof with a nil dereference.
\<close>

theorem VerifyProof_outcome:
  "(length (Hashes p) \<le> length (Positions p) \<longrightarrow>
      (\<exists>b. VerifyProof txHash (Some p) rootHash = Inr b)) \<and>
   (length (Positions p) < length (Hashes p) \<longrightarrow>
      VerifyProof txHash (Some p) rootHash = Inl Panic_index_out_of_range) \<and>
   VerifyProof txHash None rootHash = Inl Panic_nil_dereference"
  by (simp add: VerifyProof_climb VerifyProof_panic) (simp add: VerifyProof_def)

theorem VerifyProof_outcome_witness:
  "length (Hashes \<lparr>Hashes = [[0x02]], Positions = [True, False]\<rparr>)
     \<le> length (Positions \<lparr>Hashes = [[0x02]], Positions = [True, False]\<rparr>) \<and>
   (\<exists>b. VerifyProof [0x01] (Some \<lparr>Hashes = [[0x02]], Positions = [True, False]\<rparr>) [0x03] = Inr b) \<and>
   length (Positions \<lparr>Hashes = [[0x02], [0x04]], Positions = [True]\<rparr>)
     < length (Hashes \<lparr>Hashes = [[0x02], [0x04]], Positions = [True]\<rparr>) \<and>
   VerifyProof [0x01] (Some \<lparr>Hashes = [[0x02], [0x04]], Positions = [True]\<rparr>) [0x03]
     = Inl Panic_index_out_of_range"
  using VerifyProof_outcome[of "\<lparr>Hashes = [[0x02]], Positions = [True, False]\<rparr>" "[0x01]" "[0x03]"]
        VerifyProof_outcome[of "\<lparr>Hashes = [[0x02], [0x04]], Positions = [True]\<rparr>" "[0x01]" "[0x03]"]
  by simp

text \<open>
  C9. On a proof without hashes \<^verbatim>\<open>VerifyProof\<close> returns whether the leaf digest and the
  claimed root are the same bytes, whatever the positions are; so the digest of the root of
  a tree verifies against itself with such a proof.
\<close>

theorem empty_proof:
  "Hashes p = [] \<Longrightarrow>
     VerifyProof d (Some p) r = Inr (d = r) \<and>
     VerifyProof (Hash (Root tree)) (Some p) (Hash (Root tree)) = Inr True"
  by (simp add: VerifyProof_climb)

theorem empty_proof_witness:
  "Hashes \<lparr>Hashes = [], Positions = [True]\<rparr> = [] \<and>
   VerifyProof [0x01] (Some \<lparr>Hashes = [], Positions = [True]\<rparr>) [0x01] = Inr True \<and>
   VerifyProof [0x01] (Some \<lparr>Hashes = [], Positions = [True]\<rparr>) [0x02] = Inr False \<and>
   VerifyProof (Hash (Root (projr (NewMerkleTree f2_zero [tx1, tx2]))))
     (Some \<lparr>Hashes = [], Positions = [True]\<rparr>)
     (Hash (Root (projr (NewMerkleTree f2_zero [tx1, tx2])))) = Inr True"
  using empty_proof[of "\<lparr>Hashes = [], Positions = [True]\<rparr>" "[0x01]" "[0x01]"
                      "projr (NewMerkleTree f2_zero [tx1, tx2])"]
        empty_proof[of "\<lparr>Hashes = [], Positions = [True]\<rparr>" "[0x01]" "[0x02]"
                      "projr (NewMerkleTree f2_zero [tx1, tx2])"]
  by simp

section \<open>One leaf and four leaves\<close>

text \<open>
  C3 as stated fails on the tree of the single transaction \<open>tx1\<close>: the digest of the root
  is not the digest of the leaf, the proof for index 0 is not the empty proof, and
  \<^verbatim>\<open>VerifyProof\<close> of the leaf digest with the empty proof against the root returns false.
\<close>

theorem single_leaf_counterexample:
  "Hash (Root (projr (NewMerkleTree f2_zero [tx1]))) \<noteq> Transaction_Hash f2_zero tx1 \<and>
   snd (GenerateProof (projr (NewMerkleTree f2_zero [tx1])) 0) \<noteq> Inr \<lparr>Hashes = [], Positions = []\<rparr> \<and>
   VerifyProof (Transaction_Hash f2_zero tx1) (Some \<lparr>Hashes = [], Positions = []\<rparr>)
     (Hash (Root (projr (NewMerkleTree f2_zero [tx1])))) = Inr False"
proof -
  have ne: "Sum256 (Transaction_Hash f2_zero tx1 @ Transaction_Hash f2_zero tx1)
              \<noteq> Transaction_Hash f2_zero tx1"
    unfolding tx1_digest tx1_pair_digest by simp
  then have ne': "Transaction_Hash f2_zero tx1
              \<noteq> Sum256 (Transaction_Hash f2_zero tx1 @ Transaction_Hash f2_zero tx1)"
    by (rule not_sym)
  show ?thesis
    using ne ne' by (simp add: NewMerkleTree_single GenerateProof_single VerifyProof_climb)
qed

text \<open>
  C3, amended. Building a tree from one transaction with digest \<open>d\<close> succeeds. The leaf
  is paired with itself: the root has the leaf as both children and the digest
  \<open>Hash(d || d)\<close>. \<^verbatim>\<open>GenerateProof(0)\<close> returns the one entry \<open>(d, sibling on the right)\<close>,
  and \<^verbatim>\<open>VerifyProof\<close> of \<open>d\<close> with that proof against the root returns true. With the empty
  proof it returns whether \<open>d = Hash(d || d)\<close>.
\<close>

theorem single_leaf:
  "NewMerkleTree f2 [t] =
     Inr \<lparr>Root = MerkleNode (Some (MerkleNode None None (Transaction_Hash f2 t)))
                             (Some (MerkleNode None None (Transaction_Hash f2 t)))
                             (Sum256 (Transaction_Hash f2 t @ Transaction_Hash f2 t)),
          Transactions = [t],
          Leaves = [MerkleNode None None (Transaction_Hash f2 t)]\<rparr> \<and>
   snd (GenerateProof (projr (NewMerkleTree f2 [t])) 0) =
     Inr \<lparr>Hashes = [Transaction_Hash f2 t], Positions = [True]\<rparr> \<and>
   VerifyProof (Transaction_Hash f2 t)
     (Some \<lparr>Hashes = [Transaction_Hash f2 t], Positions = [True]\<rparr>)
     (Hash (Root (projr (NewMerkleTree f2 [t])))) = Inr True \<and>
   VerifyProof (Transaction_Hash f2 t)
     (Some \<lparr>Hashes = [], Positions = []\<rparr>)
     (Hash (Root (projr (NewMerkleTree f2 [t])))) =
       Inr (Transaction_Hash f2 t = Sum256 (Transaction_Hash f2 t @ Transaction_Hash f2 t))"
  by (simp add: NewMerkleTree_single GenerateProof_single VerifyProof_climb)

text \<open>
  C6. For four transactions with digests \<open>d0, d1, d2, d3\<close>, construction succeeds and the
  digest of the root is \<open>Hash(Hash(d0 || d1) || Hash(d2 || d3))\<close>; \<^verbatim>\<open>GenerateProof(1)\<close>
  returns the two entries \<open>(d0, sibling on the left)\<close> and
  \<open>(Hash(d2 || d3), sibling on the right)\<close>; verifying \<open>d1\<close> with that proof against the
  root returns true; and verifying \<open>d0\<close> with it returns false, for \<open>d0\<close> different
  from \<open>d1\<close> and unless SHA-256 collides on one of the two pairs of messages that the
  two paths hash: \<open>d0 || d0\<close> with \<open>d0 || d1\<close>, and their digests each followed by
  \<open>Hash(d2 || d3)\<close>.
\<close>

theorem four_leaves:
  "\<exists>tree.
     NewMerkleTree f2 [t0, t1, t2, t3] = Inr tree \<and>
     Hash (Root tree) =
       Sum256 (Sum256 (Transaction_Hash f2 t0 @ Transaction_Hash f2 t1) @
               Sum256 (Transaction_Hash f2 t2 @ Transaction_Hash f2 t3)) \<and>
     GenerateProof tree 1 =
       (tree, Inr \<lparr>Hashes = [Transaction_Hash f2 t0,
                              Sum256 (Transaction_Hash f2 t2 @ Transaction_Hash f2 t3)],
                   Positions = [False, True]\<rparr>) \<and>
     VerifyProof (Transaction_Hash f2 t1)
       (Some \<lparr>Hashes = [Transaction_Hash f2 t0,
                         Sum256 (Transaction_Hash f2 t2 @ Transaction_Hash f2 t3)],
              Positions = [False, True]\<rparr>)
       (Hash (Root tree)) = Inr True \<and>
     (Transaction_Hash f2 t0 \<noteq> Transaction_Hash f2 t1 \<and>
      \<not> collision (Transaction_Hash f2 t0 @ Transaction_Hash f2 t0)
                  (Transaction_Hash f2 t0 @ Transaction_Hash f2 t1) \<and>
      \<not> collision (Sum256 (Transaction_Hash f2 t0 @ Transaction_Hash f2 t0) @
                     Sum256 (Transaction_Hash f2 t2 @ Transaction_Hash f2 t3))
                  (Sum256 (Transaction_Hash f2 t0 @ Transaction_Hash f2 t1) @
                     Sum256 (Transaction_Hash f2 t2 @ Transaction_Hash f2 t3)) \<longrightarrow>
      VerifyProof (Transaction_Hash f2 t0)
        (Some \<lparr>Hashes = [Transaction_Hash f2 t0,
                          Sum256 (Transaction_Hash f2 t2 @ Transaction_Hash f2 t3)],
               Positions = [False, True]\<rparr>)
        (Hash (Root tree)) = Inr False)"
proof -
  define d0 where "d0 = Transaction_Hash f2 t0"
  define d1 where "d1 = Transaction_Hash f2 t1"
  define h where "h = Sum256 (Transaction_Hash f2 t2 @ Transaction_Hash f2 t3)"
  have rej: "Sum256 (Sum256 (d0 @ d0) @ h) \<noteq> Sum256 (Sum256 (d0 @ d1) @ h)"
    if ne: "d0 \<noteq> d1" and c1: "\<not> collision (d0 @ d0) (d0 @ d1)"
      and c2: "\<not> collision (Sum256 (d0 @ d0) @ h) (Sum256 (d0 @ d1) @ h)"
  proof -
    from ne have "d0 @ d0 \<noteq> d0 @ d1" by simp
    with c1 have "Sum256 (d0 @ d0) \<noteq> Sum256 (d0 @ d1)" by (simp add: collision_def)
    then have "Sum256 (d0 @ d0) @ h \<noteq> Sum256 (d0 @ d1) @ h" by simp
    with c2 show ?thesis by (simp add: collision_def)
  qed
  show ?thesis
    using rej
    by (simp add: NewMerkleTree_four GenerateProof_four leaf_nodes_def VerifyProof_climb
          d0_def d1_def h_def)
qed

theorem four_leaves_witness:
  "Transaction_Hash f2_zero tx1 \<noteq> Transaction_Hash f2_zero tx2 \<and>
   \<not> collision (Transaction_Hash f2_zero tx1 @ Transaction_Hash f2_zero tx1)
               (Transaction_Hash f2_zero tx1 @ Transaction_Hash f2_zero tx2) \<and>
   \<not> collision (Sum256 (Transaction_Hash f2_zero tx1 @ Transaction_Hash f2_zero tx1) @
                  Sum256 (Transaction_Hash f2_zero tx3 @ Transaction_Hash f2_zero tx4))
               (Sum256 (Transaction_Hash f2_zero tx1 @ Transaction_Hash f2_zero tx2) @
                  Sum256 (Transaction_Hash f2_zero tx3 @ Transaction_Hash f2_zero tx4)) \<and>
   (\<exists>tree.
      NewMerkleTree f2_zero [tx1, tx2, tx3, tx4] = Inr tree \<and>
      GenerateProof tree 1 =
        (tree, Inr \<lparr>Hashes = [Transaction_Hash f2_zero tx1,
                               Sum256 (Transaction_Hash f2_zero tx3 @ Transaction_Hash f2_zero tx4)],
                    Positions = [False, True]\<rparr>) \<and>
      VerifyProof (Transaction_Hash f2_zero tx2)
        (Some \<lparr>Hashes = [Transaction_Hash f2_zero tx1,
                          Sum256 (Transaction_Hash f2_zero tx3 @ Transaction_Hash f2_zero tx4)],
               Positions = [False, True]\<rparr>)
        (Hash (Root tree)) = Inr True \<and>
      VerifyProof (Transaction_Hash f2_zero tx1)
        (Some \<lparr>Hashes = [Transaction_Hash f2_zero tx1,
                          Sum256 (Transaction_Hash f2_zero tx3 @ Transaction_Hash f2_zero tx4)],
               Positions = [False, True]\<rparr>)
        (Hash (Root tree)) = Inr False)"
proof -
  have ne: "Transaction_Hash f2_zero tx1 \<noteq> Transaction_Hash f2_zero tx2"
    unfolding tx1_digest tx2_digest by simp
  have c1: "\<not> collision (Transaction_Hash f2_zero tx1 @ Transaction_Hash f2_zero tx1)
                          (Transaction_Hash f2_zero tx1 @ Transaction_Hash f2_zero tx2)"
    unfolding collision_def tx1_digest tx2_digest tx1_pair_digest tx1_tx2_digest by simp
  have c2: "\<not> collision
              (Sum256 (Transaction_Hash f2_zero tx1 @ Transaction_Hash f2_zero tx1) @
                 Sum256 (Transaction_Hash f2_zero tx3 @ Transaction_Hash f2_zero tx4))
              (Sum256 (Transaction_Hash f2_zero tx1 @ Transaction_Hash f2_zero tx2) @
                 Sum256 (Transaction_Hash f2_zero tx3 @ Transaction_Hash f2_zero tx4))"
    unfolding collision_def tx1_digest tx2_digest tx3_digest tx4_digest
      tx1_pair_digest tx1_tx2_digest tx3_tx4_digest four_root_digest four_other_digest
    by simp
  show ?thesis
    using four_leaves[of f2_zero tx1 tx2 tx3 tx4] ne c1 c2 by auto
qed

section \<open>Errors\<close>

text \<open>
  C8. \<^verbatim>\<open>NewMerkleTree\<close> on the empty list returns an error and no tree. \<^verbatim>\<open>GenerateProof\<close>
  with an index that is negative or not below the number of transactions returns an error
  and no proof, and the tree after the call is the tree before it. In a tree built by
  \<^verbatim>\<open>NewMerkleTree\<close> there are as many leaves as transactions, so the same holds for an
  index not below the number of leaves.
\<close>

theorem error_cases:
  "NewMerkleTree f2 [] = Inl (Err ''cannot create Merkle tree with no transactions'') \<and>
   (txIndex < 0 \<or> int (length (Transactions mt)) \<le> txIndex \<longrightarrow>
      GenerateProof mt txIndex = (mt, Inl (Err ''transaction index out of bounds''))) \<and>
   (NewMerkleTree f2 transactions = Inr tree \<longrightarrow>
      Transactions tree = transactions \<and> length (Leaves tree) = length transactions \<and>
      (i < 0 \<or> int (length (Leaves tree)) \<le> i \<longrightarrow>
         GenerateProof tree i = (tree, Inl (Err ''transaction index out of bounds''))))"
proof -
  have a: "NewMerkleTree f2 [] = Inl (Err ''cannot create Merkle tree with no transactions'')"
    by (simp add: NewMerkleTree_def)
  have b: "GenerateProof m j = (m, Inl (Err ''transaction index out of bounds''))"
    if "j < 0 \<or> int (length (Transactions m)) \<le> j" for m j
    using that by (auto simp: GenerateProof_def)
  have c: "Transactions tree = transactions \<and> length (Leaves tree) = length transactions"
    if "NewMerkleTree f2 transactions = Inr tree"
    using that
    by (auto simp: NewMerkleTree_def Let_def split: if_splits sum.splits list.splits)
  show ?thesis using a b c by auto
qed

theorem error_cases_witness:
  "((-1::int) < 0 \<or> int (length (Transactions (projr (NewMerkleTree f2_zero [tx1, tx2])))) \<le> -1) \<and>
   GenerateProof (projr (NewMerkleTree f2_zero [tx1, tx2])) (-1) =
     (projr (NewMerkleTree f2_zero [tx1, tx2]), Inl (Err ''transaction index out of bounds'')) \<and>
   NewMerkleTree f2_zero [tx1, tx2] = Inr (projr (NewMerkleTree f2_zero [tx1, tx2])) \<and>
   ((2::int) < 0 \<or> int (length (Leaves (projr (NewMerkleTree f2_zero [tx1, tx2])))) \<le> 2) \<and>
   GenerateProof (projr (NewMerkleTree f2_zero [tx1, tx2])) 2 =
     (projr (NewMerkleTree f2_zero [tx1, tx2]), Inl (Err ''transaction index out of bounds''))"
  using error_cases[of f2_zero "-1" "projr (NewMerkleTree f2_zero [tx1, tx2])" "[tx1, tx2]"
                      "projr (NewMerkleTree f2_zero [tx1, tx2])" 2]
  by (simp add: NewMerkleTree_unfold dup_if_odd_def leaf_nodes_def build_loop.simps)

section \<open>Padding and hashing during construction\<close>

text \<open>
  C4 as stated fails at the leaf level: with one transaction the leaf level has exactly
  one node, and the root is not that node, as it would be if the construction in the
  words of the claim (\<open>spec_reduce\<close>) were run on the leaves.
\<close>

theorem padding_rule_counterexample:
  "[Root (projr (NewMerkleTree f2_zero [tx1]))] \<noteq> spec_reduce (Leaves (projr (NewMerkleTree f2_zero [tx1])))"
  by (simp add: NewMerkleTree_single spec_reduce.simps)

text \<open>
  C4, amended. At the leaf level the last node is repeated (the node itself, so the same
  digest) if and only if the number of leaves is odd, a single leaf included; at every
  level above, if and only if the number of nodes is odd and greater than one; a level of
  exactly one node above the leaves is the root. So the root is what the construction in
  the words of the claim gives on the leaves padded in this way; for more than one leaf
  that is what it gives on the leaves themselves, and for one leaf the root is the parent
  of the leaf paired with itself.
\<close>

theorem padding_rule:
  assumes "transactions \<noteq> []"
  shows "\<exists>tree. NewMerkleTree f2 transactions = Inr tree \<and>
                Leaves tree = leaf_nodes f2 transactions \<and>
                [Root tree] = spec_reduce (dup_if_odd (Leaves tree)) \<and>
                (if length (Leaves tree) = 1
                 then Root tree = NewMerkleNode (Some (hd (Leaves tree))) (Some (hd (Leaves tree))) []
                 else [Root tree] = spec_reduce (Leaves tree))"
proof -
  have i: "(0::int) \<le> 0" "0 < int (length transactions)" using assms by simp_all
  from generate_built[OF assms i, of f2] obtain root where
    t: "NewMerkleTree f2 transactions =
          Inr \<lparr>Root = root, Transactions = transactions, Leaves = leaf_nodes f2 transactions\<rparr>"
    and sr: "spec_reduce (dup_if_odd (leaf_nodes f2 transactions)) = [root]"
    by blast
  have ne: "leaf_nodes f2 transactions \<noteq> []" using assms by (simp add: leaf_nodes_def)
  have "root = NewMerkleNode (Some (hd (leaf_nodes f2 transactions)))
                             (Some (hd (leaf_nodes f2 transactions))) []"
    if "length (leaf_nodes f2 transactions) = 1"
  proof -
    from that obtain x where x: "leaf_nodes f2 transactions = [x]"
      by (cases "leaf_nodes f2 transactions") auto
    have "spec_reduce (dup_if_odd [x]) = [NewMerkleNode (Some x) (Some x) []]"
      by (simp add: dup_if_odd_def spec_reduce.simps spec_pad_def)
    with sr x show ?thesis by simp
  qed
  moreover have "[root] = spec_reduce (leaf_nodes f2 transactions)"
    if "length (leaf_nodes f2 transactions) \<noteq> 1"
  proof -
    from that ne have "1 < length (leaf_nodes f2 transactions)"
      by (cases "leaf_nodes f2 transactions") auto
    from spec_reduce_dup[OF this] sr show ?thesis by simp
  qed
  ultimately show ?thesis using t sr by auto
qed

theorem padding_rule_witness:
  "[tx1, tx2, tx3] \<noteq> [] \<and>
   (\<exists>tree. NewMerkleTree f2_zero [tx1, tx2, tx3] = Inr tree \<and>
           Leaves tree = leaf_nodes f2_zero [tx1, tx2, tx3] \<and>
           [Root tree] = spec_reduce (dup_if_odd (Leaves tree)) \<and>
           [Root tree] = spec_reduce (Leaves tree))"
  using padding_rule[of "[tx1, tx2, tx3]" f2_zero]
  by (auto simp: leaf_nodes_def)

text \<open>
  C5. A node made without children carries the given digest unchanged; a node made with
  two children carries the SHA-256 digest of the left child's digest followed by the right
  child's. In a tree built from a non-empty list of transactions the leaves carry the
  hashes of the transactions, in order, and every node under the root follows these two
  rules.
\<close>

theorem hash_rules:
  "NewMerkleNode None None d = MerkleNode None None d \<and>
   NewMerkleNode (Some l) (Some r) d = MerkleNode (Some l) (Some r) (Sum256 (Hash l @ Hash r)) \<and>
   (transactions \<noteq> [] \<longrightarrow>
      (\<exists>tree. NewMerkleTree f2 transactions = Inr tree \<and>
              Leaves tree = map (\<lambda>tx. MerkleNode None None (Transaction_Hash f2 tx)) transactions \<and>
              hash_rule (Transaction_Hash f2 ` set transactions) (Root tree)))"
proof -
  have tree: "\<exists>tree. NewMerkleTree f2 transactions = Inr tree \<and>
              Leaves tree = map (\<lambda>tx. MerkleNode None None (Transaction_Hash f2 tx)) transactions \<and>
              hash_rule (Transaction_Hash f2 ` set transactions) (Root tree)"
    if ne: "transactions \<noteq> []"
  proof -
    have i: "(0::int) \<le> 0" "0 < int (length transactions)" using ne by simp_all
    from generate_built[OF ne i, of f2] obtain root where
      t: "NewMerkleTree f2 transactions =
            Inr \<lparr>Root = root, Transactions = transactions, Leaves = leaf_nodes f2 transactions\<rparr>"
      and sr: "spec_reduce (dup_if_odd (leaf_nodes f2 transactions)) = [root]"
      by blast
    have "\<forall>n\<in>set (dup_if_odd (leaf_nodes f2 transactions)).
            hash_rule (Transaction_Hash f2 ` set transactions) n"
      by (auto simp: set_dup_if_odd leaf_nodes_def)
    from hash_rule_spec_reduce[OF this] sr
    have "hash_rule (Transaction_Hash f2 ` set transactions) root" by simp
    with t show ?thesis by (simp add: leaf_nodes_def)
  qed
  then show ?thesis by (simp add: NewMerkleNode_def)
qed

theorem hash_rules_witness:
  "[tx1, tx2, tx3] \<noteq> [] \<and>
   (\<exists>tree. NewMerkleTree f2_zero [tx1, tx2, tx3] = Inr tree \<and>
           Leaves tree = map (\<lambda>tx. MerkleNode None None (Transaction_Hash f2_zero tx)) [tx1, tx2, tx3] \<and>
           hash_rule (Transaction_Hash f2_zero ` set [tx1, tx2, tx3]) (Root tree))"
  using hash_rules[of "[]" "MerkleNode None None []" "MerkleNode None None []" "[tx1, tx2, tx3]" f2_zero]
  by simp

section \<open>The shape of generated proofs\<close>

text \<open>
  C7 as stated fails for one leaf: the formula gives length 0, the proof has one entry.
\<close>

theorem proof_length_counterexample:
  "length (Hashes (projr (snd (GenerateProof (projr (NewMerkleTree f2_zero [tx1])) 0))))
     \<noteq> nat \<lceil>log 2 (real (max (length [tx1]) 1))\<rceil>"
  by (simp add: NewMerkleTree_single GenerateProof_single)

text \<open>
  C7, amended. For a tree built from \<open>n\<close> leaves and a valid index, the proof has
  \<open>\<lceil>log\<^sub>2 n\<rceil>\<close> entries when \<open>n\<close> is at least 2, and one entry when \<open>n = 1\<close>.
\<close>

theorem proof_length:
  assumes "transactions \<noteq> []" "0 \<le> i" "i < int (length transactions)"
  shows "\<exists>tree p. NewMerkleTree f2 transactions = Inr tree \<and>
                  GenerateProof tree i = (tree, Inr p) \<and>
                  length (Hashes p) =
                    (if length transactions = 1 then 1
                     else nat \<lceil>log 2 (real (length transactions))\<rceil>)"
proof -
  define n where "n = length transactions"
  define m where "m = length (dup_if_odd (leaf_nodes f2 transactions))"
  from generate_built[OF assms, of f2] obtain root hs ps where
    t: "NewMerkleTree f2 transactions =
          Inr \<lparr>Root = root, Transactions = transactions, Leaves = leaf_nodes f2 transactions\<rparr>"
    and g: "GenerateProof \<lparr>Root = root, Transactions = transactions, Leaves = leaf_nodes f2 transactions\<rparr> i =
       (\<lparr>Root = root, Transactions = transactions, Leaves = leaf_nodes f2 transactions\<rparr>,
        Inr \<lparr>Hashes = hs, Positions = ps\<rparr>)"
    and up: "m \<le> 2 ^ length hs" and lo: "2 ^ length hs < 2 * m"
    unfolding m_def by blast
  have m: "m = (if odd n then n + 1 else n)"
    by (simp add: m_def n_def dup_if_odd_def leaf_nodes_def)
  have n0: "0 < n" using assms(1) by (simp add: n_def)
  have len: "length hs = (if n = 1 then 1 else nat \<lceil>log 2 (real n)\<rceil>)"
  proof (cases "n = 1")
    case True
    with m up lo have "2 \<le> (2::nat) ^ length hs" "(2::nat) ^ length hs < 4" by simp_all
    then have "length hs = 1" by (rule two_pow_between)
    with True show ?thesis by simp
  next
    case False
    with n0 have n2: "1 < n" by simp
    have a: "n \<le> 2 ^ length hs" using up m by (simp split: if_splits)
    have b: "2 ^ length hs < 2 * n"
    proof (cases "odd n")
      case True
      with lo m have "2 ^ length hs < 2 * (n + 1)" by simp
      from pow2_lt_odd[OF True n2 this] show ?thesis .
    next
      case False
      with lo m show ?thesis by simp
    qed
    have "ceillog2 n = length hs" by (rule ceillog2_eqI[OF a b])
    with n0 False show ?thesis by (simp add: ceillog2_def)
  qed
  show ?thesis
    using t g len by (simp add: n_def)
qed

theorem proof_length_witness:
  "[tx1, tx2, tx3, tx4, tx1] \<noteq> [] \<and> (0::int) \<le> 4 \<and> (4::int) < int (length [tx1, tx2, tx3, tx4, tx1]) \<and>
   (\<exists>tree p. NewMerkleTree f2_zero [tx1, tx2, tx3, tx4, tx1] = Inr tree \<and>
             GenerateProof tree 4 = (tree, Inr p) \<and>
             length (Hashes p) = nat \<lceil>log 2 (real (length [tx1, tx2, tx3, tx4, tx1]))\<rceil>)"
  using proof_length[of "[tx1, tx2, tx3, tx4, tx1]" 4 f2_zero] by simp

text \<open>
  C10. A proof that \<^verbatim>\<open>GenerateProof\<close> returns, on any tree and index, has as many positions
  as hashes, so \<^verbatim>\<open>VerifyProof\<close> returns a boolean on it. On a tree built by
  \<^verbatim>\<open>NewMerkleTree\<close> and a valid index \<open>i\<close>, the proof has one entry for each level below
  the root; at level \<open>k\<close> the path passes through position \<open>i div 2\<^sup>k\<close>, the hash is the
  digest of the node next to it in its pair, and the position is true exactly when that
  node is to the right.
\<close>

theorem generated_proof_shape:
  "(GenerateProof mt j = (mt', Inr q) \<longrightarrow>
      length (Hashes q) = length (Positions q) \<and> (\<exists>b. VerifyProof h (Some q) r = Inr b)) \<and>
   (transactions \<noteq> [] \<and> 0 \<le> i \<and> i < int (length transactions) \<longrightarrow>
      (\<exists>tree p. NewMerkleTree f2 transactions = Inr tree \<and>
         GenerateProof tree i = (tree, Inr p) \<and>
         length (Hashes p) = length (levels (dup_if_odd (Leaves tree))) \<and>
         (\<forall>k<length (Hashes p).
            sibling (i div 2 ^ k) < length (levels (dup_if_odd (Leaves tree)) ! k) \<and>
            Hashes p ! k = Hash (levels (dup_if_odd (Leaves tree)) ! k ! sibling (i div 2 ^ k)) \<and>
            Positions p ! k = (nat (i div 2 ^ k) < sibling (i div 2 ^ k)))))"
proof -
  have a: "length (Hashes q) = length (Positions q) \<and> (\<exists>b. VerifyProof h (Some q) r = Inr b)"
    if "GenerateProof mt j = (mt', Inr q)"
    using GenerateProof_lengths[OF that] by (simp add: VerifyProof_climb)
  have b: "\<exists>tree p. NewMerkleTree f2 transactions = Inr tree \<and>
         GenerateProof tree i = (tree, Inr p) \<and>
         length (Hashes p) = length (levels (dup_if_odd (Leaves tree))) \<and>
         (\<forall>k<length (Hashes p).
            sibling (i div 2 ^ k) < length (levels (dup_if_odd (Leaves tree)) ! k) \<and>
            Hashes p ! k = Hash (levels (dup_if_odd (Leaves tree)) ! k ! sibling (i div 2 ^ k)) \<and>
            Positions p ! k = (nat (i div 2 ^ k) < sibling (i div 2 ^ k)))"
    if ne: "transactions \<noteq> []" and i: "0 \<le> i" "i < int (length transactions)"
  proof -
    from generate_built[OF ne i, of f2] obtain root hs ps where
      t: "NewMerkleTree f2 transactions =
            Inr \<lparr>Root = root, Transactions = transactions, Leaves = leaf_nodes f2 transactions\<rparr>"
      and g: "GenerateProof \<lparr>Root = root, Transactions = transactions, Leaves = leaf_nodes f2 transactions\<rparr> i =
         (\<lparr>Root = root, Transactions = transactions, Leaves = leaf_nodes f2 transactions\<rparr>,
          Inr \<lparr>Hashes = hs, Positions = ps\<rparr>)"
      and l: "length ps = length hs"
      and pos: "\<forall>k<length ps. ps ! k = even (i div 2 ^ k)"
      and lv: "length hs = length (levels (dup_if_odd (leaf_nodes f2 transactions)))"
      and sib: "\<forall>k<length hs.
          sibling (i div 2 ^ k) < length (levels (dup_if_odd (leaf_nodes f2 transactions)) ! k) \<and>
          hs ! k = Hash (levels (dup_if_odd (leaf_nodes f2 transactions)) ! k ! sibling (i div 2 ^ k))"
      by blast
    have nn: "0 \<le> i div 2 ^ k" for k using i(1) by (simp add: pos_imp_zdiv_nonneg_iff)
    have "\<forall>k<length hs. ps ! k = (nat (i div 2 ^ k) < sibling (i div 2 ^ k))"
      using pos l by (simp add: side_of_sibling[OF nn])
    with t g lv sib show ?thesis by simp
  qed
  from a b show ?thesis by blast
qed

theorem generated_proof_shape_witness:
  "GenerateProof (projr (NewMerkleTree f2_zero [tx1, tx2, tx3])) 2 =
     (projr (NewMerkleTree f2_zero [tx1, tx2, tx3]),
      Inr \<lparr>Hashes = [Transaction_Hash f2_zero tx3,
                      Sum256 (Transaction_Hash f2_zero tx1 @ Transaction_Hash f2_zero tx2)],
           Positions = [True, False]\<rparr>) \<and>
   length (Hashes \<lparr>Hashes = [Transaction_Hash f2_zero tx3,
                      Sum256 (Transaction_Hash f2_zero tx1 @ Transaction_Hash f2_zero tx2)],
           Positions = [True, False]\<rparr>) =
     length (Positions \<lparr>Hashes = [Transaction_Hash f2_zero tx3,
                      Sum256 (Transaction_Hash f2_zero tx1 @ Transaction_Hash f2_zero tx2)],
           Positions = [True, False]\<rparr>) \<and>
   [tx1, tx2, tx3] \<noteq> [] \<and> (0::int) \<le> 2 \<and> (2::int) < int (length [tx1, tx2, tx3]) \<and>
   (\<exists>tree p. NewMerkleTree f2_zero [tx1, tx2, tx3] = Inr tree \<and>
         GenerateProof tree 2 = (tree, Inr p) \<and>
         length (Hashes p) = length (levels (dup_if_odd (Leaves tree))) \<and>
         sibling (2 div 2 ^ 1) < length (levels (dup_if_odd (Leaves tree)) ! 1) \<and>
         Hashes p ! 1 = Hash (levels (dup_if_odd (Leaves tree)) ! 1 ! sibling (2 div 2 ^ 1)) \<and>
         Positions p ! 1 = (nat (2 div 2 ^ 1) < sibling (2 div 2 ^ 1)))"
proof -
  define T where "T = projr (NewMerkleTree f2_zero [tx1, tx2, tx3])"
  define P where "P = \<lparr>Hashes = [Transaction_Hash f2_zero tx3,
                      Sum256 (Transaction_Hash f2_zero tx1 @ Transaction_Hash f2_zero tx2)],
           Positions = [True, False]\<rparr>"
  have g: "GenerateProof T 2 = (T, Inr P)"
    by (simp add: T_def P_def NewMerkleTree_unfold dup_if_odd_def leaf_nodes_def build_loop.simps
          GenerateProof_def proof_loop.simps)
  note inst = generated_proof_shape[of T 2 T P "[]" "[]" "[tx1, tx2, tx3]" 2 f2_zero]
  from inst g have first: "length (Hashes P) = length (Positions P)" by blast
  from inst have "\<exists>tree p. NewMerkleTree f2_zero [tx1, tx2, tx3] = Inr tree \<and>
         GenerateProof tree 2 = (tree, Inr p) \<and>
         length (Hashes p) = length (levels (dup_if_odd (Leaves tree))) \<and>
         (\<forall>k<length (Hashes p).
            sibling (2 div 2 ^ k) < length (levels (dup_if_odd (Leaves tree)) ! k) \<and>
            Hashes p ! k = Hash (levels (dup_if_odd (Leaves tree)) ! k ! sibling (2 div 2 ^ k)) \<and>
            Positions p ! k = (nat (2 div 2 ^ k) < sibling (2 div 2 ^ k)))"
    by simp
  then obtain tree p where
    t: "NewMerkleTree f2_zero [tx1, tx2, tx3] = Inr tree"
    and gp: "GenerateProof tree 2 = (tree, Inr p)"
    and lv: "length (Hashes p) = length (levels (dup_if_odd (Leaves tree)))"
    and all: "\<forall>k<length (Hashes p).
            sibling (2 div 2 ^ k) < length (levels (dup_if_odd (Leaves tree)) ! k) \<and>
            Hashes p ! k = Hash (levels (dup_if_odd (Leaves tree)) ! k ! sibling (2 div 2 ^ k)) \<and>
            Positions p ! k = (nat (2 div 2 ^ k) < sibling (2 div 2 ^ k))"
    by blast
  from t have "tree = T" by (simp add: T_def)
  with gp g have "p = P" by simp
  then have "1 < length (Hashes p)" by (simp add: P_def)
  with all have one: "sibling (2 div 2 ^ 1) < length (levels (dup_if_odd (Leaves tree)) ! 1) \<and>
            Hashes p ! 1 = Hash (levels (dup_if_odd (Leaves tree)) ! 1 ! sibling (2 div 2 ^ 1)) \<and>
            Positions p ! 1 = (nat (2 div 2 ^ 1) < sibling (2 div 2 ^ 1))"
    by blast
  show ?thesis
    using g first t gp lv one unfolding T_def P_def by auto
qed

end
